theory Spec2Isabelle
  imports Main "HOL-Library.AList"
begin

unbundle bit_operations_syntax

section \<open>The scanner of compiler/scanner.go\<close>

text \<open>
  The source buffer \<open>src []byte\<close> is a \<open>string\<close>: an Isabelle \<open>char\<close> is one byte.
  A Go \<open>rune\<close> is an \<open>int\<close> (the values that occur are \<open>-1\<close> and code points, far
  from the bounds of int32). Offsets and the error count are \<open>nat\<close>: Go's \<open>int\<close> values that
  start at 0, only grow, and are bounded by the length of the buffer and by the number of
  calls of \<open>error\<close>.
\<close>

type_synonym rune = int

abbreviation rune :: "char \<Rightarrow> rune" where
  "rune c \<equiv> of_char c"

definition bom :: rune where
  "bom = 0xFEFF"

definition eof :: rune where
  "eof = - 1"

subsection \<open>Tokens\<close>

text \<open>
  Modelled from the spec: the type \<open>Token\<close>, its constants and \<open>Lookup\<close> are declared in
  token.go, which is not among the sources. The constructors are the constants that
  scanner.go names (ILLEGAL, EOF, COMMENT, META, INT, FLOAT, CHAR, STRING; \<open>INT\<close> and \<open>CHAR\<close> are
  written \<open>INT_T\<close> and \<open>CHAR_T\<close>, the names being taken by Isabelle's syntax), the
  identifier and keyword kinds that \<open>Lookup\<close> answers with, and the raw-string kind of the
  spec's token kind enumeration (section 6). \<open>Lookup\<close> resolves an identifier against a
  closed keyword table (spec 4.2: unmatched text is an identifier token); the table is a
  parameter.
\<close>

datatype Token =
  ILLEGAL | EOF | COMMENT | META | IDENT | KEYWORD string
  | INT_T | FLOAT | CHAR_T | STRING | RAWSTRING

definition Lookup :: "string list \<Rightarrow> string \<Rightarrow> Token" where
  "Lookup keywords literal = (if literal \<in> set keywords then KEYWORD literal else IDENT)"

subsection \<open>Diagnostics and the scanner state\<close>

text \<open>
  A message is the string handed to \<open>error\<close>. The one formatted message,
  \<open>fmt.Sprintf("illegal character %#U in escape sequence", s.char)\<close>, is kept as a
  constructor holding the rune that is formatted.
\<close>

datatype message = Msg string | IllegalCharInEscape rune

text \<open>
  The struct \<open>Scanner\<close>. The field \<open>file\<close> is left out: \<open>NewScanner\<close> stores it and
  nothing reads it (every read in scanner.go is commented out, and the type \<open>File\<close> is not
  among the sources). The field \<open>err\<close> holds whether a handler was given (\<open>s.err != nil\<close>); what a
  handler does is outside the scanner, so its invocations are recorded in \<open>handlerCalls\<close>,
  and the lines that \<open>fmt.Println("error:", msg)\<close> writes are recorded in \<open>printed\<close>.
  \<open>flags\<close> is the \<open>map[string]bool\<close> as an association list.
\<close>

record Scanner =
  src :: string
  dir :: string
  err :: bool
  ErrorCount :: nat
  scanComments :: bool
  flags :: "(string \<times> bool) list"
  flagStarted :: bool
  char :: rune
  offset :: nat
  readOffset :: nat
  lineOffset :: nat
  printed :: "message list"
  handlerCalls :: "(nat \<times> message) list"

subsection \<open>utf8.DecodeRune\<close>

text \<open>
  \<open>next\<close> calls \<open>utf8.DecodeRune\<close> of Go's standard library on bytes from 0x80 up.
  This is that function: the table \<open>first\<close> of the leading byte (\<open>as = 0xF0\<close> for ASCII,
  \<open>xx = 0xF1\<close> for an invalid byte, otherwise the size in the low bits and the index of the
  accept range of the second byte in the high bits), the accept ranges, and the decoding.
\<close>

definition RuneError :: rune where
  "RuneError = 0xFFFD"

definition RuneSelf :: rune where
  "RuneSelf = 0x80"

definition MaxRune :: nat where
  "MaxRune = 0x10FFFF"

definition first :: "nat \<Rightarrow> nat" where
  "first b =
     (if b < 0x80 then 0xF0
      else if b < 0xC2 then 0xF1
      else if b < 0xE0 then 0x02
      else if b = 0xE0 then 0x13
      else if b < 0xED then 0x03
      else if b = 0xED then 0x23
      else if b < 0xF0 then 0x03
      else if b = 0xF0 then 0x34
      else if b < 0xF4 then 0x04
      else if b = 0xF4 then 0x44
      else 0xF1)"

definition acceptRanges :: "nat \<Rightarrow> nat \<times> nat" where
  "acceptRanges i =
     (if i = 0 then (0x80, 0xBF)
      else if i = 1 then (0xA0, 0xBF)
      else if i = 2 then (0x80, 0x9F)
      else if i = 3 then (0x90, 0xBF)
      else (0x80, 0x8F))"

definition DecodeRune :: "string \<Rightarrow> rune \<times> nat" where
  "DecodeRune p =
     (case p of
        [] \<Rightarrow> (RuneError, 0)
      | c0 # _ \<Rightarrow>
          let p0 = (of_char c0 :: nat); x = first p0 in
          if x \<ge> 0xF0 then
            (let mask = (if odd x then - 1 else 0 :: int)
             in ((int p0 AND NOT mask) OR (RuneError AND mask), 1))
          else
            let sz = x AND 7; accept = acceptRanges (drop_bit 4 x) in
            if length p < sz then (RuneError, 1)
            else
              let b1 = (of_char (p ! 1) :: nat) in
              if b1 < fst accept \<or> snd accept < b1 then (RuneError, 1)
              else if sz \<le> 2 then
                (push_bit 6 (int (p0 AND 0x1F)) OR int (b1 AND 0x3F), 2)
              else
                let b2 = (of_char (p ! 2) :: nat) in
                if b2 < 0x80 \<or> 0xBF < b2 then (RuneError, 1)
                else if sz \<le> 3 then
                  (push_bit 12 (int (p0 AND 0x0F)) OR push_bit 6 (int (b1 AND 0x3F))
                     OR int (b2 AND 0x3F), 3)
                else
                  let b3 = (of_char (p ! 3) :: nat) in
                  if b3 < 0x80 \<or> 0xBF < b3 then (RuneError, 1)
                  else
                    (push_bit 18 (int (p0 AND 0x07)) OR push_bit 12 (int (b1 AND 0x3F))
                       OR push_bit 6 (int (b2 AND 0x3F)) OR int (b3 AND 0x3F), 4))"

subsection \<open>error, next and peek\<close>

text \<open>
  \<open>error\<close> prints the message and counts it. The body of \<open>if s.err != nil\<close> is commented
  out in the source, so both branches leave the state as it is: the handler is not called.
\<close>

definition error :: "nat \<Rightarrow> message \<Rightarrow> Scanner \<Rightarrow> Scanner" where
  "error off msg s =
     (let s1 = s\<lparr>printed := printed s @ [msg]\<rparr>;
          s2 = (if err s1 then s1 else s1)
      in s2\<lparr>ErrorCount := ErrorCount s2 + 1\<rparr>)"

text \<open>\<open>next\<close> of the source (the name is an Isar keyword, hence \<open>next_rune\<close>).\<close>

definition next_rune :: "Scanner \<Rightarrow> Scanner" where
  "next_rune s =
     (if readOffset s < length (src s) then
        let s1 = s\<lparr>offset := readOffset s\<rparr>;
            r = rune (src s1 ! readOffset s1);
            (s2, r, w) =
              (if r = 0 then (error (offset s1) (Msg ''illegal character NUL'') s1, r, 1)
               else if r \<ge> RuneSelf then
                 (let (r', w') = DecodeRune (drop (readOffset s1) (src s1)) in
                  if r' = RuneError \<and> w' = 1 then
                    (error (offset s1) (Msg ''illegal UTF-8 encoding'') s1, r', w')
                  else if r' = bom \<and> offset s1 > 0 then
                    (error (offset s1) (Msg ''illegal byte order mark'') s1, r', w')
                  else (s1, r', w'))
               else (s1, r, 1))
        in s2\<lparr>readOffset := readOffset s2 + w, char := r\<rparr>
      else s\<lparr>offset := length (src s), char := eof\<rparr>)"

definition peek :: "Scanner \<Rightarrow> char" where
  "peek s = (if readOffset s < length (src s) then src s ! readOffset s else CHR 0x00)"

subsection \<open>Facts about DecodeRune\<close>

lemma first_cases:
  "first b = 0xF0 \<or> first b = 0xF1 \<or> first b = 0x02 \<or> first b = 0x13 \<or> first b = 0x03
   \<or> first b = 0x23 \<or> first b = 0x34 \<or> first b = 0x04 \<or> first b = 0x44"
  by (simp add: first_def)

lemma DecodeRune_width:
  "p \<noteq> [] \<Longrightarrow> 1 \<le> snd (DecodeRune p) \<and> snd (DecodeRune p) \<le> length p"
  using first_cases [of "of_char (hd p)"]
  by (cases p)
    (auto simp: DecodeRune_def Let_def Suc_le_eq simp del: length_0_conv length_greater_0_conv)

lemma and31: "(n::nat) AND 0x1F = n mod 32"
  using take_bit_eq_mask [of 5 n] by (simp add: take_bit_eq_mod mask_eq_exp_minus_1)

lemma and15: "(n::nat) AND 0x0F = n mod 16"
  using take_bit_eq_mask [of 4 n] by (simp add: take_bit_eq_mod mask_eq_exp_minus_1)

lemma and7: "(n::nat) AND 0x07 = n mod 8"
  using take_bit_eq_mask [of 3 n] by (simp add: take_bit_eq_mod mask_eq_exp_minus_1)

lemma and63: "(n::nat) AND 0x3F = n mod 64"
  using take_bit_eq_mask [of 6 n] by (simp add: take_bit_eq_mod mask_eq_exp_minus_1)

lemma or_ge: "0 \<le> (a::int) \<Longrightarrow> 0 \<le> b \<Longrightarrow> k \<le> a \<or> k \<le> b \<Longrightarrow> k \<le> a OR b"
  using or_greater_eq [of b a] or_greater_eq [of a b] by (auto simp: or.commute)

lemma mod_range:
  assumes "a mod m = 0" "a \<le> n" "n < a + m"
  shows "n mod m = n - (a::nat)"
proof -
  have "n = a + (n - a)" using assms(2) by simp
  then have "n mod m = (a + (n - a)) mod m" by simp
  also have "\<dots> = (n - a) mod m" using assms(1) by (simp add: mod_add_left_eq [symmetric])
  also have "\<dots> = n - a" using assms(2,3) by (intro mod_less) linarith
  finally show ?thesis .
qed

text \<open>A byte from 0x80 up never decodes to an ASCII rune: overlong forms are RuneError.\<close>

lemma DecodeRune_nonascii:
  assumes "(of_char c0 :: nat) \<ge> 0x80"
  shows "fst (DecodeRune (c0 # rest)) \<ge> 0x80"
proof -
  define p0 where "p0 = (of_char c0 :: nat)"
  define b1 where "b1 = (of_char ((c0 # rest) ! 1) :: nat)"
  define b2 where "b2 = (of_char ((c0 # rest) ! 2) :: nat)"
  define b3 where "b3 = (of_char ((c0 # rest) ! 3) :: nat)"
  define X where "X = int (b1 AND 0x3F)"
  define Y where "Y = int (b2 AND 0x3F)"
  define Z where "Z = int (b3 AND 0x3F)"
  define x where "x = first p0"
  have nonneg: "0 \<le> X" "0 \<le> Y" "0 \<le> Z" by (simp_all add: X_def Y_def Z_def)
  have p0: "128 \<le> p0" using assms by (simp add: p0_def)
  have D: "DecodeRune (c0 # rest) =
     (if x \<ge> 0xF0 then
            (let mask = (if odd x then - 1 else 0 :: int)
             in ((int p0 AND NOT mask) OR (RuneError AND mask), 1))
          else
            if length (c0 # rest) < x AND 7 then (RuneError, 1)
            else
              if b1 < fst (acceptRanges (drop_bit 4 x)) \<or> snd (acceptRanges (drop_bit 4 x)) < b1
              then (RuneError, 1)
              else if x AND 7 \<le> 2 then (push_bit 6 (int (p0 AND 0x1F)) OR X, 2)
              else
                if b2 < 0x80 \<or> 0xBF < b2 then (RuneError, 1)
                else if x AND 7 \<le> 3 then
                  (push_bit 12 (int (p0 AND 0x0F)) OR push_bit 6 X OR Y, 3)
                else
                  if b3 < 0x80 \<or> 0xBF < b3 then (RuneError, 1)
                  else
                    (push_bit 18 (int (p0 AND 0x07)) OR push_bit 12 X
                       OR push_bit 6 Y OR Z, 4))"
    unfolding DecodeRune_def p0_def b1_def b2_def b3_def X_def Y_def Z_def x_def Let_def
      list.case ..
  have pb: "0 \<le> push_bit n X" "0 \<le> push_bit n Y" for n
    using nonneg by simp_all
  consider "p0 < 0xC2" | "0xC2 \<le> p0" "p0 < 0xE0" | "p0 = 0xE0" | "0xE0 < p0" "p0 < 0xF0"
    | "p0 = 0xF0" | "0xF0 < p0" "p0 < 0xF5" | "0xF5 \<le> p0"
    by linarith
  then show ?thesis
  proof cases
    case 1
    then have "x = 0xF1" using p0 by (simp add: x_def first_def)
    then show ?thesis by (simp add: D RuneError_def)
  next
    case 2
    then have x: "x = 0x02" by (simp add: x_def first_def)
    from 2 have "2 \<le> p0 mod 32" using mod_range [of 192 32 p0] by simp
    then have "128 \<le> push_bit 6 (int (p0 AND 0x1F))" by (simp add: and31 push_bit_eq_mult)
    then have "128 \<le> push_bit 6 (int (p0 AND 0x1F)) OR X"
      using nonneg by (intro or_ge) simp_all
    then show ?thesis by (simp add: D x RuneError_def)
  next
    case 3
    then have x: "x = 0x13" by (simp add: x_def first_def)
    have "128 \<le> push_bit 6 X OR Y" if "160 \<le> b1" "b1 \<le> 191"
    proof -
      from that have "32 \<le> b1 mod 64" using mod_range [of 128 64 b1] by simp
      then have "128 \<le> push_bit 6 X" by (simp add: X_def and63 push_bit_eq_mult)
      then show ?thesis using nonneg pb by (intro or_ge) simp_all
    qed
    then have "128 \<le> push_bit 12 (int (p0 AND 0x0F)) OR (push_bit 6 X OR Y)"
      if "160 \<le> b1" "b1 \<le> 191"
      using that nonneg pb by (intro or_ge) simp_all
    then show ?thesis by (simp add: D x RuneError_def acceptRanges_def not_less)
  next
    case 4
    then have x: "x = 0x03 \<or> x = 0x23" by (simp add: x_def first_def)
    from 4 have "1 \<le> p0 mod 16" using mod_range [of 224 16 p0] by simp
    then have "128 \<le> push_bit 12 (int (p0 AND 0x0F))" by (simp add: and15 push_bit_eq_mult)
    then have "128 \<le> push_bit 12 (int (p0 AND 0x0F)) OR (push_bit 6 X OR Y)"
      using nonneg pb by (intro or_ge) simp_all
    then show ?thesis using x by (auto simp add: D RuneError_def)
  next
    case 5
    then have x: "x = 0x34" by (simp add: x_def first_def)
    have "128 \<le> push_bit 12 X" if "144 \<le> b1" "b1 \<le> 191"
    proof -
      from that have "16 \<le> b1 mod 64" using mod_range [of 128 64 b1] by simp
      then show ?thesis by (simp add: X_def and63 push_bit_eq_mult)
    qed
    then have "128 \<le> push_bit 12 X OR (push_bit 6 Y OR Z)"
      if "144 \<le> b1" "b1 \<le> 191"
      using that nonneg pb by (intro or_ge) simp_all
    then have "128 \<le> push_bit 18 (int (p0 AND 0x07)) OR (push_bit 12 X OR (push_bit 6 Y OR Z))"
      if "144 \<le> b1" "b1 \<le> 191"
      using that nonneg pb by (intro or_ge) simp_all
    then show ?thesis by (simp add: D x RuneError_def acceptRanges_def not_less)
  next
    case 6
    then have x: "x = 0x04 \<or> x = 0x44" by (simp add: x_def first_def)
    from 6 have "1 \<le> p0 mod 8" using mod_range [of 240 8 p0] by simp
    then have "128 \<le> push_bit 18 (int (p0 AND 0x07))" by (simp add: and7 push_bit_eq_mult)
    then have "128 \<le> push_bit 18 (int (p0 AND 0x07)) OR (push_bit 12 X OR (push_bit 6 Y OR Z))"
      using nonneg pb by (intro or_ge) simp_all
    then show ?thesis using x by (auto simp add: D RuneError_def)
  next
    case 7
    then have "x = 0xF1" by (simp add: x_def first_def)
    then show ?thesis by (simp add: D RuneError_def)
  qed
qed

subsection \<open>The cursor: what one call of next does\<close>

text \<open>
  \<open>remaining\<close> bounds the calls of \<open>next\<close> that still change the state: the bytes not yet
  read, and one more while the current rune is not the end-of-input value.
\<close>

definition remaining :: "Scanner \<Rightarrow> nat" where
  "remaining s = (length (src s) - readOffset s) + (if char s = eof then 0 else 1)"

text \<open>
  The invariant of the cursor (spec, section 3): \<open>readOffset\<close> is within the buffer, the
  current rune starts at \<open>offset\<close> and ends at \<open>readOffset\<close>, an ASCII rune is one byte wide,
  and at the end of input \<open>offset\<close> is the length of the buffer.
\<close>

definition cursor_ok :: "Scanner \<Rightarrow> bool" where
  "cursor_ok s \<longleftrightarrow>
     readOffset s \<le> length (src s) \<and>
     (if char s = eof then offset s = length (src s) \<and> readOffset s = length (src s)
      else offset s < readOffset s \<and> 0 \<le> char s \<and>
           (char s < 0x80 \<longrightarrow> readOffset s = offset s + 1))"

lemma rune_int: "rune c = int (of_char c)"
  by (simp add: of_nat_of_char)

lemma rune_nonneg: "0 \<le> rune c"
  unfolding rune_int by simp

lemma error_eq:
  "error off msg s = s\<lparr>printed := printed s @ [msg], ErrorCount := ErrorCount s + 1\<rparr>"
  by (simp add: error_def)

text \<open>
  One call of \<open>next\<close>, in one equation: at the end of input only \<open>offset\<close> and \<open>char\<close> are
  set; otherwise a rune of width \<open>w\<close> is read and at most one diagnostic is printed.
\<close>

lemma next_rune_cases:
  obtains (at_end) "length (src s) \<le> readOffset s"
      "next_rune s = s\<lparr>offset := length (src s), char := eof\<rparr>"
  | (read) r w es where "readOffset s < length (src s)"
      "next_rune s = s\<lparr>offset := readOffset s, readOffset := readOffset s + w, char := r,
          printed := printed s @ es, ErrorCount := ErrorCount s + length es\<rparr>"
      "1 \<le> w" "readOffset s + w \<le> length (src s)" "0 \<le> r" "r < 0x80 \<longrightarrow> w = 1"
      "length es \<le> 1"
proof (cases "readOffset s < length (src s)")
  case False
  then show ?thesis by (intro at_end) (simp_all add: next_rune_def)
next
  case True
  define c where "c = src s ! readOffset s"
  define p where "p = drop (readOffset s) (src s)"
  define q where "q = drop (Suc (readOffset s)) (src s)"
  have p: "p = c # q" "p \<noteq> []" "length p = length (src s) - readOffset s"
    using True Cons_nth_drop_Suc [OF True] by (simp_all add: p_def c_def q_def)
  have cr: "0 \<le> rune c" by (rule rune_nonneg)
  consider "rune c = 0" | "0 < rune c" "rune c < 0x80" | "0x80 \<le> rune c"
    using cr by linarith
  then show ?thesis
  proof cases
    case 1
    show ?thesis
      by (rule read [where r = 0 and w = 1 and es = "[Msg ''illegal character NUL'']"])
        (use True 1 in \<open>simp_all add: next_rune_def error_eq Let_def flip: c_def\<close>)
  next
    case 2
    show ?thesis
      by (rule read [where r = "rune c" and w = 1 and es = "[]"])
        (use True 2 in \<open>simp_all add: next_rune_def RuneSelf_def Let_def flip: c_def\<close>)
  next
    case 3
    obtain r w where rw: "DecodeRune p = (r, w)" by (cases "DecodeRune p")
    have w: "1 \<le> w" "w \<le> length p" using DecodeRune_width [OF p(2)] rw by simp_all
    have "(128::nat) \<le> of_char c"
      using 3 unfolding rune_int by linarith
    then have r: "0x80 \<le> r" using DecodeRune_nonascii [of c q] p(1) rw by simp
    let ?es = "if r = RuneError \<and> w = 1 then [Msg ''illegal UTF-8 encoding'']
               else if r = bom \<and> readOffset s > 0 then [Msg ''illegal byte order mark'']
               else []"
    show ?thesis
      by (rule read [where r = r and w = w and es = ?es])
        (use True 3 rw w r p(3) in
          \<open>simp_all add: next_rune_def RuneSelf_def error_eq Let_def flip: c_def p_def\<close>)
  qed
qed

text \<open>
  \<open>steps s s'\<close>: \<open>s'\<close> comes from \<open>s\<close> by calls of \<open>next\<close> and \<open>error\<close>. Only the cursor, the
  printed lines and the error count differ, each printed line is counted once, the
  handler is never called, \<open>remaining\<close> does not grow, and the invariant of the cursor is
  kept with \<open>offset\<close> moving forward only.
\<close>

definition steps :: "Scanner \<Rightarrow> Scanner \<Rightarrow> bool" where
  "steps s s' \<longleftrightarrow>
     (\<exists>off ro c es. s' = s\<lparr>offset := off, readOffset := ro, char := c,
         printed := printed s @ es, ErrorCount := ErrorCount s + length es\<rparr>) \<and>
     remaining s' \<le> remaining s \<and>
     (cursor_ok s \<longrightarrow> cursor_ok s' \<and> offset s \<le> offset s')"

lemma steps_refl: "steps s s"
proof -
  have "s = s\<lparr>offset := offset s, readOffset := readOffset s, char := char s,
      printed := printed s @ [], ErrorCount := ErrorCount s + length ([] :: message list)\<rparr>"
    by simp
  then show ?thesis unfolding steps_def by blast
qed

lemma steps_trans:
  assumes "steps s t" "steps t u"
  shows "steps s u"
proof -
  obtain off ro c es where t: "t = s\<lparr>offset := off, readOffset := ro, char := c,
      printed := printed s @ es, ErrorCount := ErrorCount s + length es\<rparr>"
    using assms(1) unfolding steps_def by blast
  obtain off' ro' c' es' where u: "u = t\<lparr>offset := off', readOffset := ro', char := c',
      printed := printed t @ es', ErrorCount := ErrorCount t + length es'\<rparr>"
    using assms(2) unfolding steps_def by blast
  have "u = s\<lparr>offset := off', readOffset := ro', char := c',
      printed := printed s @ (es @ es'), ErrorCount := ErrorCount s + length (es @ es')\<rparr>"
    by (simp add: t u)
  then have "\<exists>off ro c es. u = s\<lparr>offset := off, readOffset := ro, char := c,
      printed := printed s @ es, ErrorCount := ErrorCount s + length es\<rparr>"
    by blast
  moreover have "remaining u \<le> remaining s"
    using assms unfolding steps_def by linarith
  moreover have "cursor_ok s \<longrightarrow> cursor_ok u \<and> offset s \<le> offset u"
    using assms unfolding steps_def by auto
  ultimately show ?thesis unfolding steps_def by blast
qed

lemma steps_error: "steps s (error off msg s)"
proof -
  have "error off msg s = s\<lparr>offset := offset s, readOffset := readOffset s, char := char s,
      printed := printed s @ [msg], ErrorCount := ErrorCount s + length [msg]\<rparr>"
    by (simp add: error_eq)
  moreover have "remaining (error off msg s) = remaining s"
    by (simp add: error_eq remaining_def)
  moreover have "cursor_ok (error off msg s) = cursor_ok s"
    by (simp add: error_eq cursor_ok_def)
  moreover have "offset (error off msg s) = offset s"
    by (simp add: error_eq)
  ultimately show ?thesis unfolding steps_def by (metis order_refl)
qed

lemma steps_next: "steps s (next_rune s)"
proof (cases s rule: next_rune_cases)
  case at_end
  have "next_rune s = s\<lparr>offset := length (src s), readOffset := readOffset s, char := eof,
      printed := printed s @ [], ErrorCount := ErrorCount s + length ([] :: message list)\<rparr>"
    by (simp add: at_end)
  moreover have "remaining (next_rune s) \<le> remaining s"
    using at_end by (simp add: remaining_def)
  moreover have "cursor_ok s \<longrightarrow> cursor_ok (next_rune s) \<and> offset s \<le> offset (next_rune s)"
    using at_end by (auto simp: cursor_ok_def split: if_splits)
  ultimately show ?thesis unfolding steps_def by blast
next
  case (read r w es)
  have "r \<noteq> eof" using read(5) by (simp add: eof_def)
  then have "remaining (next_rune s) \<le> remaining s"
    using read by (simp add: remaining_def)
  moreover have "cursor_ok s \<longrightarrow> cursor_ok (next_rune s) \<and> offset s \<le> offset (next_rune s)"
    using read \<open>r \<noteq> eof\<close> by (auto simp: cursor_ok_def split: if_splits)
  ultimately show ?thesis unfolding steps_def using read(2) by blast
qed

lemma steps_frame:
  assumes "steps s s'"
  shows "src s' = src s" "scanComments s' = scanComments s" "err s' = err s"
    "handlerCalls s' = handlerCalls s" "flags s' = flags s" "dir s' = dir s"
    "flagStarted s' = flagStarted s" "lineOffset s' = lineOffset s"
  using assms unfolding steps_def by auto

lemma steps_remaining: "steps s s' \<Longrightarrow> remaining s' \<le> remaining s"
  unfolding steps_def by simp

lemma steps_cursor_ok: "steps s s' \<Longrightarrow> cursor_ok s \<Longrightarrow> cursor_ok s'"
  unfolding steps_def by simp

lemma steps_offset: "steps s s' \<Longrightarrow> cursor_ok s \<Longrightarrow> offset s \<le> offset s'"
  unfolding steps_def by simp

lemma steps_printed:
  "steps s s' \<Longrightarrow> \<exists>es. printed s' = printed s @ es \<and> ErrorCount s' = ErrorCount s + length es"
  unfolding steps_def by auto

lemma next_decreases: "char s \<noteq> eof \<Longrightarrow> remaining (next_rune s) < remaining s"
proof (cases s rule: next_rune_cases)
  case at_end
  then show "char s \<noteq> eof \<Longrightarrow> ?thesis" by (simp add: remaining_def)
next
  case (read r w es)
  then show "char s \<noteq> eof \<Longrightarrow> ?thesis" by (auto simp: remaining_def)
qed

lemma next_advances:
  assumes "cursor_ok s" "char s \<noteq> eof"
  shows "offset s < offset (next_rune s)"
  using assms by (cases s rule: next_rune_cases) (auto simp: cursor_ok_def)

lemma cursor_ok_next: "readOffset s \<le> length (src s) \<Longrightarrow> cursor_ok (next_rune s)"
proof (cases s rule: next_rune_cases)
  case at_end
  then show "readOffset s \<le> length (src s) \<Longrightarrow> ?thesis" by (simp add: cursor_ok_def)
next
  case (read r w es)
  then show "readOffset s \<le> length (src s) \<Longrightarrow> ?thesis"
    by (auto simp: cursor_ok_def eof_def)
qed

subsection \<open>Character classes\<close>

definition isLetter :: "rune \<Rightarrow> bool" where
  "isLetter c \<longleftrightarrow>
     c = rune CHR ''_'' \<or> rune CHR ''a'' \<le> c \<and> c \<le> rune CHR ''z''
     \<or> rune CHR ''A'' \<le> c \<and> c \<le> rune CHR ''Z''"

definition isDecimal :: "rune \<Rightarrow> bool" where
  "isDecimal c \<longleftrightarrow> rune CHR ''0'' \<le> c \<and> c \<le> rune CHR ''9''"

definition lower :: "rune \<Rightarrow> rune" where
  "lower c = (rune CHR ''a'' - rune CHR ''A'') OR c"

definition digitVal :: "rune \<Rightarrow> nat" where
  "digitVal c =
     (if rune CHR ''0'' \<le> c \<and> c \<le> rune CHR ''9'' then nat (c - rune CHR ''0'')
      else if rune CHR ''a'' \<le> lower c \<and> lower c \<le> rune CHR ''f''
        then nat (lower c - rune CHR ''a'' + 10)
      else 16)"

lemma isLetter_not_eof: "isLetter c \<Longrightarrow> c \<noteq> eof"
  by (auto simp: isLetter_def eof_def)

lemma isDecimal_not_eof: "isDecimal c \<Longrightarrow> c \<noteq> eof"
  by (auto simp: isDecimal_def eof_def)

lemma digitVal_eof: "digitVal eof = 16"
  by (simp add: digitVal_def eof_def lower_def)

lemma digitVal_le: "digitVal c \<le> 16"
  by (auto simp: digitVal_def)

text \<open>
  \<open>string(s.src[lo:hi])\<close>. Go panics when \<open>lo > hi\<close> or \<open>hi\<close> is past the buffer; the
  scanner slices from an offset it saved to the current \<open>offset\<close>, which \<open>cursor_ok\<close> keeps in
  order and within the buffer.
\<close>

definition slice :: "string \<Rightarrow> nat \<Rightarrow> nat \<Rightarrow> string" where
  "slice xs lo hi = take (hi - lo) (drop lo xs)"

subsection \<open>Comments, identifiers, digits\<close>

function scanComment_line :: "Scanner \<Rightarrow> Scanner" where
  "scanComment_line s =
     (if char s \<noteq> rune CHR 0x0A \<and> char s \<ge> 0 then scanComment_line (next_rune s) else s)"
  by pat_completeness auto
termination
  by (relation "measure remaining") (auto simp: next_decreases eof_def)

function scanComment_block :: "Scanner \<Rightarrow> Scanner \<times> bool" where
  "scanComment_block s =
     (if char s \<ge> 0 then
        let c = char s; s1 = next_rune s in
        if c = rune CHR ''*'' \<and> char s1 = rune CHR ''/'' then (next_rune s1, True)
        else scanComment_block s1
      else (s, False))"
  by pat_completeness auto
termination
  by (relation "measure remaining") (auto simp: next_decreases eof_def)

declare scanComment_line.simps [simp del] scanComment_block.simps [simp del]

definition scanComment :: "Scanner \<Rightarrow> Scanner \<times> string" where
  "scanComment s =
     (let off = offset s - 1;
          s' = (if char s = rune CHR ''/'' then scanComment_line (next_rune s)
                else let (s2, terminated) = scanComment_block (next_rune s)
                     in if \<not> terminated then error off (Msg ''comment not terminated'') s2
                        else s2)
      in (s', slice (src s') off (offset s')))"

function scanIdentifier_loop :: "Scanner \<Rightarrow> Scanner" where
  "scanIdentifier_loop s =
     (if isLetter (char s) \<or> isDecimal (char s) then scanIdentifier_loop (next_rune s) else s)"
  by pat_completeness auto
termination
  by (relation "measure remaining")
    (auto simp: next_decreases isLetter_not_eof isDecimal_not_eof)

declare scanIdentifier_loop.simps [simp del]

definition scanIdentifier :: "Scanner \<Rightarrow> Scanner \<times> string" where
  "scanIdentifier s =
     (let off = offset s; s' = scanIdentifier_loop s in (s', slice (src s') off (offset s')))"

text \<open>
  \<open>scanDigits\<close>: \<open>for s.digitVal(s.char) < base { s.next() }\<close>. The source calls it with
  the bases 2, 8, 10 and 16 only; for these no digit value is below the base at the end
  of input (\<open>digitVal\<close> is 16 there), which the second conjunct of the condition states
  (\<open>scanDigits_loop\<close> below shows that it is redundant for every base up to 16). With a
  base above 16 the loop of the source would not leave the end of input.
\<close>

function scanDigits :: "nat \<Rightarrow> Scanner \<Rightarrow> Scanner" where
  "scanDigits base s =
     (if digitVal (char s) < base \<and> char s \<noteq> eof then scanDigits base (next_rune s) else s)"
  by pat_completeness auto
termination
  by (relation "measure (\<lambda>(base, s). remaining s)") (auto simp: next_decreases)

declare scanDigits.simps [simp del]

lemma scanDigits_loop:
  "base \<le> 16 \<Longrightarrow>
   scanDigits base s = (if digitVal (char s) < base then scanDigits base (next_rune s) else s)"
  using digitVal_eof by (subst scanDigits.simps) auto

lemma steps_scanComment_line: "steps s (scanComment_line s)"
proof (induction s rule: scanComment_line.induct)
  case (1 s)
  show ?case
  proof (cases "char s \<noteq> rune CHR 0x0A \<and> char s \<ge> 0")
    case True
    then show ?thesis
      using 1 steps_next [of s] by (subst scanComment_line.simps) (auto intro: steps_trans)
  next
    case False
    then show ?thesis by (subst scanComment_line.simps) (auto simp: steps_refl)
  qed
qed

lemma steps_scanComment_block: "steps s (fst (scanComment_block s))"
proof (induction s rule: scanComment_block.induct)
  case (1 s)
  show ?case
  proof (cases "char s \<ge> 0")
    case True
    show ?thesis
    proof (cases "char s = rune CHR ''*'' \<and> char (next_rune s) = rune CHR ''/''")
      case True
      then show ?thesis
        using \<open>char s \<ge> 0\<close> steps_next [of s] steps_next [of "next_rune s"]
        by (subst scanComment_block.simps) (auto simp: Let_def intro: steps_trans)
    next
      case False
      then show ?thesis
        using \<open>char s \<ge> 0\<close> 1 [OF True refl refl] steps_next [of s]
        by (subst scanComment_block.simps) (auto simp: Let_def intro: steps_trans)
    qed
  next
    case False
    then show ?thesis by (subst scanComment_block.simps) (auto simp: steps_refl)
  qed
qed

lemma steps_scanComment: "steps s (fst (scanComment s))"
proof -
  have a: "steps s (scanComment_line (next_rune s))"
    using steps_next steps_scanComment_line steps_trans by blast
  have b: "steps s (fst (scanComment_block (next_rune s)))"
    using steps_next steps_scanComment_block steps_trans by blast
  have c: "steps s (error off msg (fst (scanComment_block (next_rune s))))" for off msg
    using b steps_error steps_trans by blast
  show ?thesis
    using a b c by (auto simp: scanComment_def Let_def split: prod.splits)
qed

lemma steps_scanIdentifier_loop: "steps s (scanIdentifier_loop s)"
proof (induction s rule: scanIdentifier_loop.induct)
  case (1 s)
  show ?case
  proof (cases "isLetter (char s) \<or> isDecimal (char s)")
    case True
    then show ?thesis
      using 1 steps_next [of s] by (subst scanIdentifier_loop.simps) (auto intro: steps_trans)
  next
    case False
    then show ?thesis by (subst scanIdentifier_loop.simps) (auto simp: steps_refl)
  qed
qed

lemma steps_scanIdentifier: "steps s (fst (scanIdentifier s))"
  by (simp add: scanIdentifier_def Let_def steps_scanIdentifier_loop)

lemma steps_scanDigits: "steps s (scanDigits base s)"
proof (induction base s rule: scanDigits.induct)
  case (1 base s)
  show ?case
  proof (cases "digitVal (char s) < base \<and> char s \<noteq> eof")
    case True
    then show ?thesis
      using 1 steps_next [of s] by (subst scanDigits.simps) (auto intro: steps_trans)
  next
    case False
    then show ?thesis by (subst scanDigits.simps) (auto simp: steps_refl)
  qed
qed

subsection \<open>Numbers\<close>

text \<open>
  \<open>scanNumber\<close> in three parts, in the order of the source: the base prefix after a leading
  \<open>0\<close> (the \<open>switch\<close> on the lower-cased rune and the block under \<open>token != ILLEGAL\<close>), the
  integer part (\<open>if s.char != '.'\<close>), and the fraction (\<open>if s.char == '.'\<close>). The source's
  \<open>s.offset-offset <= 2\<close> and \<open>offsetFraction == s.offset-1\<close> are written with the
  subtraction moved to the other side, which is the same on Go's integers.
\<close>

definition scanNumber_prefix :: "nat \<Rightarrow> Scanner \<Rightarrow> Scanner \<times> Token" where
  "scanNumber_prefix off s =
     (let (base, s1, token) =
            (if lower (char s) = rune CHR ''x'' then (16, s, INT_T)
             else if lower (char s) = rune CHR ''b'' then (2, s, INT_T)
             else if lower (char s) = rune CHR ''o'' then (8, s, INT_T)
             else (10, error off (Msg ''invalid integer'') s, ILLEGAL))
      in if token \<noteq> ILLEGAL then
           let s2 = scanDigits base (next_rune s1);
               (s3, token) =
                 (if offset s2 \<le> off + 2 then (error off (Msg ''illegal number'') s2, ILLEGAL)
                  else (s2, token));
               (s4, token) =
                 (if char s3 = rune CHR ''.''
                  then (error off (Msg ''invalid radix point'') s3, ILLEGAL)
                  else (s3, token))
           in (s4, token)
         else (s1, token))"

definition scanNumber_int :: "nat \<Rightarrow> Scanner \<Rightarrow> Scanner \<times> Token" where
  "scanNumber_int off s =
     (if char s \<noteq> rune CHR ''.'' then
        if char s = rune CHR ''0'' then
          let s1 = next_rune s in
          if char s1 \<noteq> rune CHR ''.'' then scanNumber_prefix off s1 else (s1, INT_T)
        else (scanDigits 10 s, INT_T)
      else (s, INT_T))"

definition scanNumber_frac :: "nat \<Rightarrow> Token \<Rightarrow> Scanner \<Rightarrow> Scanner \<times> Token" where
  "scanNumber_frac off token s =
     (if char s = rune CHR ''.'' then
        let offsetFraction = offset s;
            s1 = scanDigits 10 (next_rune s)
        in if offsetFraction + 1 = offset s1
           then (error off (Msg ''float has no digits after .'') s1, ILLEGAL)
           else (s1, FLOAT)
      else (s, token))"

definition scanNumber :: "Scanner \<Rightarrow> Scanner \<times> Token \<times> string" where
  "scanNumber s =
     (let off = offset s;
          (s1, token) = scanNumber_int off s;
          (s2, token) = scanNumber_frac off token s1
      in (s2, token, slice (src s2) off (offset s2)))"

lemma steps_scanNumber_prefix: "steps s (fst (scanNumber_prefix off s))"
proof -
  have a: "steps s (scanDigits base (next_rune s))" for base
    using steps_next steps_scanDigits steps_trans by blast
  have b: "steps s (error off m (scanDigits base (next_rune s)))" for base m
    using a steps_error steps_trans by blast
  have c: "steps s (error off m' (error off m (scanDigits base (next_rune s))))" for base m m'
    using b steps_error steps_trans by blast
  show ?thesis
    using a b c steps_error [of s]
    by (simp add: scanNumber_prefix_def Let_def split: prod.splits)
qed

lemma steps_scanNumber_int: "steps s (fst (scanNumber_int off s))"
proof -
  have "steps s (fst (scanNumber_prefix off (next_rune s)))"
    using steps_next steps_scanNumber_prefix steps_trans by blast
  then show ?thesis
    using steps_next [of s] steps_scanDigits [of s 10]
    by (simp add: scanNumber_int_def Let_def steps_refl)
qed

lemma steps_scanNumber_frac: "steps s (fst (scanNumber_frac off token s))"
proof -
  have a: "steps s (scanDigits 10 (next_rune s))"
    using steps_next steps_scanDigits steps_trans by blast
  then have "steps s (error off m (scanDigits 10 (next_rune s)))" for m
    using steps_error steps_trans by blast
  then show ?thesis
    using a by (simp add: scanNumber_frac_def Let_def steps_refl)
qed

lemma steps_scanNumber: "steps s (fst (scanNumber s))"
proof -
  obtain s1 t1 where 1: "scanNumber_int (offset s) s = (s1, t1)"
    by (cases "scanNumber_int (offset s) s")
  obtain s2 t2 where 2: "scanNumber_frac (offset s) t1 s1 = (s2, t2)"
    by (cases "scanNumber_frac (offset s) t1 s1")
  have "steps s s1" using steps_scanNumber_int [of s "offset s"] 1 by simp
  moreover have "steps s1 s2" using steps_scanNumber_frac [of s1 "offset s" t1] 2 by simp
  ultimately show ?thesis
    by (simp add: scanNumber_def 1 2 steps_trans [of s s1 s2])
qed

subsection \<open>Escapes\<close>

text \<open>
  The digit loop of \<open>scanEscape\<close> (\<open>for n > 0\<close>) and the check after it. \<open>x\<close> is a uint32:
  the wrap-around of \<open>x*base + d\<close> is written out.
\<close>

definition escape_digit_msg :: "rune \<Rightarrow> message" where
  "escape_digit_msg c =
     (if c < 0 then Msg ''escape sequence not terminated'' else IllegalCharInEscape c)"

fun scanEscape_digits :: "nat \<Rightarrow> nat \<Rightarrow> nat \<Rightarrow> nat \<Rightarrow> nat \<Rightarrow> Scanner \<Rightarrow> Scanner \<times> bool" where
  "scanEscape_digits off 0 base mx x s =
     (if x > mx \<or> 0xD800 \<le> x \<and> x < 0xE000
      then (error off (Msg ''escape sequence is invalid Unicode code point'') s, False)
      else (s, True))"
| "scanEscape_digits off (Suc n) base mx x s =
     (let d = digitVal (char s) in
      if d \<ge> base then (error (offset s) (escape_digit_msg (char s)) s, False)
      else scanEscape_digits off n base mx ((x * base + d) mod 2 ^ 32) (next_rune s))"

definition scanEscape :: "rune \<Rightarrow> Scanner \<Rightarrow> Scanner \<times> bool" where
  "scanEscape quote s =
     (let off = offset s; c = char s in
      if c = rune CHR ''a'' \<or> c = rune CHR ''b'' \<or> c = rune CHR ''f'' \<or> c = rune CHR ''n''
         \<or> c = rune CHR ''r'' \<or> c = rune CHR ''t'' \<or> c = rune CHR ''v''
         \<or> c = rune CHR 0x5C \<or> c = quote
      then (next_rune s, True)
      else if rune CHR ''0'' \<le> c \<and> c \<le> rune CHR ''7''
      then scanEscape_digits off 3 8 255 0 s
      else if c = rune CHR ''x'' then scanEscape_digits off 2 16 255 0 (next_rune s)
      else if c = rune CHR ''u'' then scanEscape_digits off 4 16 MaxRune 0 (next_rune s)
      else if c = rune CHR ''U'' then scanEscape_digits off 8 16 MaxRune 0 (next_rune s)
      else (error off (if c < 0 then Msg ''escape sequence not terminated''
                       else Msg ''unknown escape sequence'') s, False))"

lemma steps_scanEscape_digits: "steps s (fst (scanEscape_digits off n base mx x s))"
proof (induction n arbitrary: x s)
  case 0
  then show ?case by (simp add: steps_refl steps_error)
next
  case (Suc n)
  have "steps s (fst (scanEscape_digits off n base mx y (next_rune s)))" for y
    using Suc steps_next steps_trans by blast
  then show ?case by (simp add: Let_def steps_error)
qed

lemma steps_scanEscape: "steps s (fst (scanEscape quote s))"
proof -
  have "steps s (fst (scanEscape_digits off n base mx x (next_rune s)))" for off n base mx x
    using steps_scanEscape_digits steps_next steps_trans by blast
  then show ?thesis
    by (simp add: scanEscape_def Let_def steps_next steps_error steps_scanEscape_digits)
qed

subsection \<open>Strings, character literals, raw strings\<close>

function scanString_loop :: "nat \<Rightarrow> Scanner \<Rightarrow> Scanner" where
  "scanString_loop off s =
     (let c = char s in
      if c = rune CHR 0x0A \<or> c < 0 then error off (Msg ''string literal not terminated'') s
      else
        let s1 = next_rune s in
        if c = rune CHR 0x22 then s1
        else if c = rune CHR 0x5C then scanString_loop off (fst (scanEscape (rune CHR 0x22) s1))
        else scanString_loop off s1)"
  by pat_completeness auto
termination
proof (relation "measure (\<lambda>(off, s). remaining s)", goal_cases)
  case 1
  show ?case by simp
next
  case (2 off s c s1)
  then have "remaining s1 < remaining s" by (simp add: next_decreases eof_def)
  moreover have "remaining (fst (scanEscape (rune CHR 0x22) s1)) \<le> remaining s1"
    by (rule steps_remaining [OF steps_scanEscape])
  ultimately show ?case by simp
next
  case (3 off s c s1)
  then show ?case by (simp add: next_decreases eof_def)
qed

declare scanString_loop.simps [simp del]

definition scanString :: "Scanner \<Rightarrow> Scanner \<times> string" where
  "scanString s =
     (let off = offset s - 1; s' = scanString_loop off s in (s', slice (src s') off (offset s')))"

text \<open>The loop of \<open>scanChar\<close> carries \<open>valid\<close> and \<open>n\<close> and returns them with the state.\<close>

function scanChar_loop :: "nat \<Rightarrow> bool \<Rightarrow> nat \<Rightarrow> Scanner \<Rightarrow> Scanner \<times> bool \<times> nat" where
  "scanChar_loop off valid n s =
     (let c = char s in
      if c = rune CHR 0x0A \<or> c < 0 then
        (if valid then (error off (Msg ''rune literal not terminated'') s, False, n)
         else (s, valid, n))
      else
        let s1 = next_rune s in
        if c = rune CHR 0x27 then (s1, valid, n)
        else
          let n1 = n + 1 in
          if c = rune CHR 0x5C then
            (let e = char s1 in
             if e = rune CHR ''a'' \<or> e = rune CHR ''b'' \<or> e = rune CHR ''f''
                \<or> e = rune CHR ''n'' \<or> e = rune CHR ''r'' \<or> e = rune CHR ''t''
                \<or> e = rune CHR ''v'' \<or> e = rune CHR 0x5C \<or> e = rune CHR 0x27
             then scanChar_loop off valid n1 (next_rune s1)
             else scanChar_loop off False n1 (error off (Msg ''illegal char literal'') s1))
          else scanChar_loop off valid n1 s1)"
  by pat_completeness auto
termination
proof (relation "measure (\<lambda>(off, valid, n, s). remaining s)", goal_cases)
  case 1
  show ?case by simp
next
  case (2 off valid n s c s1 n1 e)
  then have "remaining s1 < remaining s" by (simp add: next_decreases eof_def)
  moreover have "remaining (next_rune s1) \<le> remaining s1"
    by (rule steps_remaining [OF steps_next])
  ultimately show ?case by simp
next
  case (3 off valid n s c s1 n1 e)
  then have "remaining s1 < remaining s" by (simp add: next_decreases eof_def)
  moreover have "remaining (error off (Msg ''illegal char literal'') s1) \<le> remaining s1"
    by (rule steps_remaining [OF steps_error])
  ultimately show ?case by simp
next
  case (4 off valid n s c s1 n1)
  then show ?case by (simp add: next_decreases eof_def)
qed

declare scanChar_loop.simps [simp del]

definition scanChar :: "Scanner \<Rightarrow> Scanner \<times> string" where
  "scanChar s =
     (let off = offset s - 1;
          (s1, valid, n) = scanChar_loop off True 0 s;
          s' = (if valid \<and> n \<noteq> 1 then error off (Msg ''illegal char literal'') s1 else s1)
      in (s', slice (src s') off (offset s')))"

function scanRawString_loop :: "nat \<Rightarrow> Scanner \<Rightarrow> Scanner" where
  "scanRawString_loop off s =
     (let c = char s in
      if c < 0 then error off (Msg ''raw string literal not terminated'') s
      else
        let s1 = next_rune s in
        if c = rune CHR 0x60 then s1 else scanRawString_loop off s1)"
  by pat_completeness auto
termination
  by (relation "measure (\<lambda>(off, s). remaining s)") (auto simp: next_decreases eof_def)

declare scanRawString_loop.simps [simp del]

definition scanRawString :: "Scanner \<Rightarrow> Scanner \<times> string" where
  "scanRawString s =
     (let off = offset s - 1; s' = scanRawString_loop off s
      in (s', slice (src s') off (offset s')))"

lemma steps_scanString_loop: "steps s (scanString_loop off s)"
proof (induction off s rule: scanString_loop.induct)
  case (1 off s)
  let ?q = "rune CHR 0x22"
  consider (stop) "char s = rune CHR 0x0A \<or> char s < 0"
    | (quote) "\<not> (char s = rune CHR 0x0A \<or> char s < 0)" "char s = ?q"
    | (esc) "\<not> (char s = rune CHR 0x0A \<or> char s < 0)" "char s \<noteq> ?q" "char s = rune CHR 0x5C"
    | (other) "\<not> (char s = rune CHR 0x0A \<or> char s < 0)" "char s \<noteq> ?q"
        "char s \<noteq> rune CHR 0x5C"
    by blast
  then show ?case
  proof cases
    case stop
    then show ?thesis by (subst scanString_loop.simps) (auto simp: steps_error)
  next
    case quote
    then show ?thesis by (subst scanString_loop.simps) (auto simp: steps_next)
  next
    case esc
    have "steps s (fst (scanEscape ?q (next_rune s)))"
      using steps_next steps_scanEscape steps_trans by blast
    moreover have "steps (fst (scanEscape ?q (next_rune s)))
        (scanString_loop off (fst (scanEscape ?q (next_rune s))))"
      using 1(1) [OF refl esc(1) refl esc(2,3)] .
    ultimately show ?thesis
      using esc by (subst scanString_loop.simps) (auto simp: Let_def intro: steps_trans)
  next
    case other
    have "steps (next_rune s) (scanString_loop off (next_rune s))"
      using 1(2) [OF refl other(1) refl other(2,3)] .
    then show ?thesis
      using other steps_next [of s]
      by (subst scanString_loop.simps) (auto simp: Let_def intro: steps_trans)
  qed
qed

lemma steps_scanString: "steps s (fst (scanString s))"
  by (simp add: scanString_def Let_def steps_scanString_loop)

lemma steps_scanChar_loop: "steps s (fst (scanChar_loop off valid n s))"
proof (induction off valid n s rule: scanChar_loop.induct)
  case (1 off valid n s)
  let ?simple = "\<lambda>e. e = rune CHR ''a'' \<or> e = rune CHR ''b'' \<or> e = rune CHR ''f''
                \<or> e = rune CHR ''n'' \<or> e = rune CHR ''r'' \<or> e = rune CHR ''t''
                \<or> e = rune CHR ''v'' \<or> e = rune CHR 0x5C \<or> e = rune CHR 0x27"
  consider (stop) "char s = rune CHR 0x0A \<or> char s < 0"
    | (quote) "\<not> (char s = rune CHR 0x0A \<or> char s < 0)" "char s = rune CHR 0x27"
    | (esc) "\<not> (char s = rune CHR 0x0A \<or> char s < 0)" "char s \<noteq> rune CHR 0x27"
        "char s = rune CHR 0x5C" "?simple (char (next_rune s))"
    | (bad) "\<not> (char s = rune CHR 0x0A \<or> char s < 0)" "char s \<noteq> rune CHR 0x27"
        "char s = rune CHR 0x5C" "\<not> ?simple (char (next_rune s))"
    | (other) "\<not> (char s = rune CHR 0x0A \<or> char s < 0)" "char s \<noteq> rune CHR 0x27"
        "char s \<noteq> rune CHR 0x5C"
    by blast
  then show ?case
  proof cases
    case stop
    then show ?thesis
      by (subst scanChar_loop.simps) (auto simp: steps_error steps_refl)
  next
    case quote
    then show ?thesis by (subst scanChar_loop.simps) (auto simp: steps_next)
  next
    case esc
    have "steps s (next_rune (next_rune s))"
      using steps_next steps_trans by blast
    moreover have "steps (next_rune (next_rune s))
        (fst (scanChar_loop off valid (n + 1) (next_rune (next_rune s))))"
      using 1(1) [OF refl esc(1) refl esc(2) refl esc(3) refl esc(4)] .
    ultimately have "steps s (fst (scanChar_loop off valid (n + 1) (next_rune (next_rune s))))"
      by (rule steps_trans)
    then show ?thesis
      using esc by (subst scanChar_loop.simps) (simp add: Let_def)
  next
    case bad
    let ?e = "error off (Msg ''illegal char literal'') (next_rune s)"
    have "steps s ?e"
      using steps_next steps_error steps_trans by blast
    moreover have "steps ?e (fst (scanChar_loop off False (n + 1) ?e))"
      using 1(2) [OF refl bad(1) refl bad(2) refl bad(3) refl bad(4)] .
    ultimately have "steps s (fst (scanChar_loop off False (n + 1) ?e))"
      by (rule steps_trans)
    then show ?thesis
      using bad by (subst scanChar_loop.simps) (simp add: Let_def)
  next
    case other
    have "steps (next_rune s) (fst (scanChar_loop off valid (n + 1) (next_rune s)))"
      using 1(3) [OF refl other(1) refl other(2) refl other(3)] .
    then have "steps s (fst (scanChar_loop off valid (n + 1) (next_rune s)))"
      using steps_next steps_trans by blast
    then show ?thesis
      using other by (subst scanChar_loop.simps) (simp add: Let_def)
  qed
qed

lemma steps_scanChar: "steps s (fst (scanChar s))"
proof -
  have "steps s s1 \<Longrightarrow> steps s (error off m s1)" for s1 off m
    using steps_error steps_trans by blast
  then show ?thesis
    using steps_scanChar_loop [of s "offset s - 1" True 0]
    by (auto simp: scanChar_def Let_def split: prod.splits)
qed

lemma steps_scanRawString_loop: "steps s (scanRawString_loop off s)"
proof (induction off s rule: scanRawString_loop.induct)
  case (1 off s)
  consider (stop) "char s < 0" | (quote) "\<not> char s < 0" "char s = rune CHR 0x60"
    | (other) "\<not> char s < 0" "char s \<noteq> rune CHR 0x60"
    by blast
  then show ?case
  proof cases
    case stop
    then show ?thesis by (subst scanRawString_loop.simps) (auto simp: steps_error)
  next
    case quote
    then show ?thesis by (subst scanRawString_loop.simps) (auto simp: steps_next)
  next
    case other
    have "steps (next_rune s) (scanRawString_loop off (next_rune s))"
      using 1 [OF refl other(1) refl other(2)] .
    then show ?thesis
      using other steps_next [of s]
      by (subst scanRawString_loop.simps) (auto simp: Let_def intro: steps_trans)
  qed
qed

lemma steps_scanRawString: "steps s (fst (scanRawString s))"
  by (simp add: scanRawString_def Let_def steps_scanRawString_loop)

subsection \<open>Scan and NewScanner\<close>

function skipWhitespace :: "Scanner \<Rightarrow> Scanner" where
  "skipWhitespace s =
     (if char s = rune CHR '' '' \<or> char s = rune CHR 0x09 \<or> char s = rune CHR 0x0A
         \<or> char s = rune CHR 0x0D
      then skipWhitespace (next_rune s) else s)"
  by pat_completeness auto
termination
  by (relation "measure remaining") (auto simp: next_decreases eof_def)

declare skipWhitespace.simps [simp del]

lemma steps_skipWhitespace: "steps s (skipWhitespace s)"
proof (induction s rule: skipWhitespace.induct)
  case (1 s)
  show ?case
  proof (cases "char s = rune CHR '' '' \<or> char s = rune CHR 0x09 \<or> char s = rune CHR 0x0A
         \<or> char s = rune CHR 0x0D")
    case True
    then show ?thesis
      using 1 steps_next [of s] by (subst skipWhitespace.simps) (auto intro: steps_trans)
  next
    case False
    then show ?thesis by (subst skipWhitespace.simps) (auto simp: steps_refl)
  qed
qed

text \<open>
  \<open>Scan\<close> returns the scanner it leaves, the token and the literal. The result \<open>pos\<close> of the
  source is never assigned (the line \<open>pos = s.file.Pos(s.offset)\<close> is commented out), so it
  is the zero \<open>Position\<close> on every path and is not part of the result here. The first loop of
  the source is \<open>skipWhitespace\<close>; \<open>return s.Scan()\<close> is the recursive call.
\<close>

function Scan :: "string list \<Rightarrow> Scanner \<Rightarrow> Scanner \<times> Token \<times> string" where
  "Scan keywords s0 =
     (let s = skipWhitespace s0 in
      if isLetter (char s) then
        (let (s', literal) = scanIdentifier s in (s', Lookup keywords literal, literal))
      else if isDecimal (char s) \<or> (char s = rune CHR ''.'' \<and> isDecimal (rune (peek s))) then
        scanNumber s
      else
        let c = char s; s1 = next_rune s in
        if c = eof then (s1, EOF, [])
        else if c = rune CHR 0x22 then
          (let (s', literal) = scanString s1 in (s', STRING, literal))
        else if c = rune CHR 0x60 then
          (let (s', literal) = scanRawString s1 in (s', STRING, literal))
        else if c = rune CHR 0x27 then
          (let (s', literal) = scanChar s1 in (s', CHAR_T, literal))
        else if c = rune CHR ''.'' then (s1, ILLEGAL, [])
        else if c = rune CHR ''/'' then
          (if char s1 = rune CHR ''/'' \<or> char s1 = rune CHR ''*'' then
             (let (s', literal) = scanComment s1 in
              if \<not> scanComments s' then Scan keywords s' else (s', COMMENT, literal))
           else (s1, ILLEGAL, []))
        else if c = rune CHR ''@'' then
          (if isLetter (char s1) then
             (let (s', literal) = scanIdentifier s1 in (s', META, literal))
           else (error (offset s1) (Msg ''invalid meta name'') s1, ILLEGAL, []))
        else (next_rune (error (offset s1) (Msg ''invalid token'') s1), ILLEGAL, []))"
  by pat_completeness auto
termination
proof (relation "measure (\<lambda>(keywords, s). remaining s)", goal_cases)
  case 1
  show ?case by simp
next
  case (2 kw s0 s c s1 x s' literal)
  have "remaining s \<le> remaining s0"
    using 2 steps_remaining [OF steps_skipWhitespace] by simp
  moreover have "remaining s1 < remaining s"
    using 2 by (simp add: next_decreases)
  moreover have "remaining s' \<le> remaining s1"
    using 2 steps_remaining [OF steps_scanComment, of s1] by (metis fst_conv)
  ultimately show ?case by simp
qed

declare Scan.simps [simp del]

text \<open>
  \<open>NewScanner\<close>. The argument \<open>file\<close> is left out with the field; \<open>handler\<close> says whether
  \<open>err\<close> is a function or nil. The other fields have Go's zero values.
\<close>

definition NewScanner :: "string \<Rightarrow> bool \<Rightarrow> bool \<Rightarrow> string list \<Rightarrow> Scanner" where
  "NewScanner source handler scanComment' flagList =
     (let s0 = \<lparr>src = source, dir = [], err = handler, ErrorCount = 0,
                scanComments = scanComment', flags = [], flagStarted = False,
                char = rune CHR '' '', offset = 0, readOffset = 0, lineOffset = 0,
                printed = [], handlerCalls = []\<rparr>;
          s1 = next_rune s0;
          s2 = (if char s1 = bom then next_rune s1 else s1)
      in s2\<lparr>flags := foldl (\<lambda>m flag. AList.update flag True m) [] flagList\<rparr>)"

text \<open>The scanner after \<open>n\<close> calls of \<open>Scan\<close>.\<close>

fun ScanN :: "string list \<Rightarrow> nat \<Rightarrow> Scanner \<Rightarrow> Scanner" where
  "ScanN keywords 0 s = s"
| "ScanN keywords (Suc n) s = ScanN keywords n (fst (Scan keywords s))"

subsection \<open>Scan, branch by branch\<close>

lemma Scan_ident:
  assumes "s = skipWhitespace s0" "isLetter (char s)"
  shows "Scan kw s0 = (fst (scanIdentifier s), Lookup kw (snd (scanIdentifier s)),
           snd (scanIdentifier s))"
  using assms by (subst Scan.simps) (simp add: Let_def split: prod.splits)

lemma Scan_number:
  assumes "s = skipWhitespace s0" "\<not> isLetter (char s)"
    "isDecimal (char s) \<or> (char s = rune CHR ''.'' \<and> isDecimal (rune (peek s)))"
  shows "Scan kw s0 = scanNumber s"
  using assms by (subst Scan.simps) (auto simp add: Let_def)

lemma Scan_eof:
  assumes "s = skipWhitespace s0" "char s = eof"
  shows "Scan kw s0 = (next_rune s, EOF, [])"
proof -
  have "\<not> isLetter (char s)" "\<not> isDecimal (char s)"
    using assms(2) by (simp_all add: isLetter_def isDecimal_def eof_def)
  then show ?thesis
    using assms by (subst Scan.simps) (simp add: Let_def eof_def)
qed

lemma Scan_string:
  assumes "s = skipWhitespace s0" "char s = rune CHR 0x22"
  shows "Scan kw s0 = (fst (scanString (next_rune s)), STRING, snd (scanString (next_rune s)))"
proof -
  have "\<not> isLetter (char s)" "\<not> isDecimal (char s)"
    using assms(2) by (simp_all add: isLetter_def isDecimal_def eof_def)
  then show ?thesis
    using assms by (subst Scan.simps) (simp add: Let_def eof_def split: prod.splits)
qed

lemma Scan_rawstring:
  assumes "s = skipWhitespace s0" "char s = rune CHR 0x60"
  shows "Scan kw s0 =
    (fst (scanRawString (next_rune s)), STRING, snd (scanRawString (next_rune s)))"
proof -
  have "\<not> isLetter (char s)" "\<not> isDecimal (char s)"
    using assms(2) by (simp_all add: isLetter_def isDecimal_def eof_def)
  then show ?thesis
    using assms by (subst Scan.simps) (simp add: Let_def eof_def split: prod.splits)
qed

lemma Scan_char:
  assumes "s = skipWhitespace s0" "char s = rune CHR 0x27"
  shows "Scan kw s0 = (fst (scanChar (next_rune s)), CHAR_T, snd (scanChar (next_rune s)))"
proof -
  have "\<not> isLetter (char s)" "\<not> isDecimal (char s)"
    using assms(2) by (simp_all add: isLetter_def isDecimal_def eof_def)
  then show ?thesis
    using assms by (subst Scan.simps) (simp add: Let_def eof_def split: prod.splits)
qed

lemma Scan_dot:
  assumes "s = skipWhitespace s0" "char s = rune CHR ''.''" "\<not> isDecimal (rune (peek s))"
  shows "Scan kw s0 = (next_rune s, ILLEGAL, [])"
proof -
  have "\<not> isLetter (char s)" "\<not> isDecimal (char s)"
    using assms(2) by (simp_all add: isLetter_def isDecimal_def eof_def)
  then show ?thesis
    using assms by (subst Scan.simps) (simp add: Let_def eof_def)
qed

lemma Scan_slash:
  assumes "s = skipWhitespace s0" "char s = rune CHR ''/''"
    "char (next_rune s) \<noteq> rune CHR ''/''" "char (next_rune s) \<noteq> rune CHR ''*''"
  shows "Scan kw s0 = (next_rune s, ILLEGAL, [])"
proof -
  have "\<not> isLetter (char s)" "\<not> isDecimal (char s)"
    using assms(2) by (simp_all add: isLetter_def isDecimal_def eof_def)
  then show ?thesis
    using assms by (subst Scan.simps) (simp add: Let_def eof_def)
qed

lemma Scan_comment:
  assumes "s = skipWhitespace s0" "char s = rune CHR ''/''"
    "char (next_rune s) = rune CHR ''/'' \<or> char (next_rune s) = rune CHR ''*''"
  shows "Scan kw s0 =
    (if \<not> scanComments (fst (scanComment (next_rune s)))
     then Scan kw (fst (scanComment (next_rune s)))
     else (fst (scanComment (next_rune s)), COMMENT, snd (scanComment (next_rune s))))"
proof -
  have "\<not> isLetter (char s)" "\<not> isDecimal (char s)"
    using assms(2) by (simp_all add: isLetter_def isDecimal_def eof_def)
  then show ?thesis
    using assms by (subst Scan.simps) (simp add: Let_def eof_def split: prod.splits)
qed

lemma Scan_meta:
  assumes "s = skipWhitespace s0" "char s = rune CHR ''@''" "isLetter (char (next_rune s))"
  shows "Scan kw s0 =
    (fst (scanIdentifier (next_rune s)), META, snd (scanIdentifier (next_rune s)))"
proof -
  have "\<not> isLetter (char s)" "\<not> isDecimal (char s)"
    using assms(2) by (simp_all add: isLetter_def isDecimal_def eof_def)
  then show ?thesis
    using assms by (subst Scan.simps) (simp add: Let_def eof_def split: prod.splits)
qed

lemma Scan_meta_bad:
  assumes "s = skipWhitespace s0" "char s = rune CHR ''@''" "\<not> isLetter (char (next_rune s))"
  shows "Scan kw s0 =
    (error (offset (next_rune s)) (Msg ''invalid meta name'') (next_rune s), ILLEGAL, [])"
proof -
  have "\<not> isLetter (char s)" "\<not> isDecimal (char s)"
    using assms(2) by (simp_all add: isLetter_def isDecimal_def eof_def)
  then show ?thesis
    using assms by (subst Scan.simps) (simp add: Let_def eof_def)
qed

lemma Scan_other:
  assumes "s = skipWhitespace s0" "\<not> isLetter (char s)" "\<not> isDecimal (char s)"
    "char s \<noteq> eof" "char s \<noteq> rune CHR 0x22" "char s \<noteq> rune CHR 0x60"
    "char s \<noteq> rune CHR 0x27" "char s \<noteq> rune CHR ''.''" "char s \<noteq> rune CHR ''/''"
    "char s \<noteq> rune CHR ''@''"
  shows "Scan kw s0 =
    (next_rune (error (offset (next_rune s)) (Msg ''invalid token'') (next_rune s)), ILLEGAL, [])"
  using assms by (subst Scan.simps) (simp add: Let_def)


lemma Scan_branch:
  fixes s :: Scanner
  obtains (ident) "isLetter (char s)"
  | (number) "\<not> isLetter (char s)"
      "isDecimal (char s) \<or> (char s = rune CHR ''.'' \<and> isDecimal (rune (peek s)))"
  | (eof) "char s = eof"
  | (string) "char s = rune CHR 0x22"
  | (raw) "char s = rune CHR 0x60"
  | (chr) "char s = rune CHR 0x27"
  | (dot) "char s = rune CHR ''.''" "\<not> isDecimal (rune (peek s))"
  | (comment) "char s = rune CHR ''/''"
      "char (next_rune s) = rune CHR ''/'' \<or> char (next_rune s) = rune CHR ''*''"
  | (slash) "char s = rune CHR ''/''"
      "char (next_rune s) \<noteq> rune CHR ''/''" "char (next_rune s) \<noteq> rune CHR ''*''"
  | (meta) "char s = rune CHR ''@''" "isLetter (char (next_rune s))"
  | (meta_bad) "char s = rune CHR ''@''" "\<not> isLetter (char (next_rune s))"
  | (other) "\<not> isLetter (char s)" "\<not> isDecimal (char s)"
      "char s \<noteq> eof" "char s \<noteq> rune CHR 0x22" "char s \<noteq> rune CHR 0x60"
      "char s \<noteq> rune CHR 0x27" "char s \<noteq> rune CHR ''.''" "char s \<noteq> rune CHR ''/''"
      "char s \<noteq> rune CHR ''@''"
  by blast

subsection \<open>Scan keeps the invariants\<close>

lemma steps_Scan: "steps s0 (fst (Scan kw s0))"
proof (induction kw s0 rule: Scan.induct)
  case (1 kw s0)
  define s where "s = skipWhitespace s0"
  have a: "steps s0 s" unfolding s_def by (rule steps_skipWhitespace)
  have b: "steps s0 (next_rune s)" using a steps_next steps_trans by blast
  have via: "steps s0 (fst (f (next_rune s)))" if "\<And>t. steps t (fst (f t))"
    for f :: "Scanner \<Rightarrow> Scanner \<times> string"
    using b that steps_trans by blast
  show ?case
  proof (cases s rule: Scan_branch)
    case ident
    show ?thesis
      using a steps_scanIdentifier [of s] by (simp add: Scan_ident [OF s_def ident] steps_trans)
  next
    case number
    show ?thesis
      using a steps_scanNumber [of s] by (simp add: Scan_number [OF s_def number] steps_trans)
  next
    case eof
    show ?thesis using b by (simp add: Scan_eof [OF s_def eof])
  next
    case string
    show ?thesis
      using via [of scanString, OF steps_scanString] by (simp add: Scan_string [OF s_def string])
  next
    case raw
    show ?thesis
      using via [of scanRawString, OF steps_scanRawString]
      by (simp add: Scan_rawstring [OF s_def raw])
  next
    case chr
    show ?thesis
      using via [of scanChar, OF steps_scanChar] by (simp add: Scan_char [OF s_def chr])
  next
    case dot
    show ?thesis using b by (simp add: Scan_dot [OF s_def dot])
  next
    case comment
    define s' where "s' = fst (scanComment (next_rune s))"
    have c: "steps s0 s'"
      unfolding s'_def using via [of scanComment, OF steps_scanComment] .
    show ?thesis
    proof (cases "scanComments s'")
      case True
      then show ?thesis using c by (simp add: Scan_comment [OF s_def comment] s'_def)
    next
      case False
      have nl: "\<not> isLetter (char s)"
        and nd: "\<not> (isDecimal (char s) \<or> (char s = rune CHR ''.'' \<and> isDecimal (rune (peek s))))"
        and ne: "char s \<noteq> eof" "char s \<noteq> rune CHR 0x22" "char s \<noteq> rune CHR 0x60"
          "char s \<noteq> rune CHR 0x27" "char s \<noteq> rune CHR ''.''"
        using comment(1) by (simp_all add: isLetter_def isDecimal_def eof_def)
      have "steps s' (fst (Scan kw s'))"
        using 1 [OF s_def nl nd refl refl ne comment(1,2) refl prod.collapse] False
        by (simp add: s'_def)
      then show ?thesis
        using c False by (simp add: Scan_comment [OF s_def comment] s'_def steps_trans)
    qed
  next
    case slash
    show ?thesis using b by (simp add: Scan_slash [OF s_def slash])
  next
    case meta
    show ?thesis
      using via [of scanIdentifier, OF steps_scanIdentifier]
      by (simp add: Scan_meta [OF s_def meta])
  next
    case meta_bad
    have "steps s0 (error off m (next_rune s))" for off m
      using b steps_error steps_trans by blast
    then show ?thesis by (simp add: Scan_meta_bad [OF s_def meta_bad])
  next
    case other
    have "steps s0 (next_rune (error off m (next_rune s)))" for off m
      using b steps_error steps_next steps_trans by blast
    then show ?thesis by (simp add: Scan_other [OF s_def other])
  qed
qed

lemma steps_ScanN: "steps s (ScanN kw n s)"
proof (induction n arbitrary: s)
  case 0
  show ?case by (simp add: steps_refl)
next
  case (Suc n)
  show ?case using steps_Scan [of s kw] Suc [of "fst (Scan kw s)"] by (simp add: steps_trans)
qed

lemma cursor_ok_NewScanner: "cursor_ok (NewScanner source handler sc flagList)"
proof -
  define s0 where "s0 = \<lparr>src = source, dir = [], err = handler, ErrorCount = 0,
                scanComments = sc, flags = [], flagStarted = False,
                char = rune CHR '' '', offset = 0, readOffset = 0, lineOffset = 0,
                printed = [], handlerCalls = []\<rparr>"
  have 1: "cursor_ok (next_rune s0)" by (rule cursor_ok_next) (simp add: s0_def)
  then have 2: "cursor_ok (next_rune (next_rune s0))"
    using steps_next steps_cursor_ok by blast
  have "cursor_ok (t\<lparr>flags := fl\<rparr>) = cursor_ok t" for t fl
    by (simp add: cursor_ok_def)
  then show ?thesis
    unfolding NewScanner_def Let_def s0_def [symmetric] using 1 2 by simp
qed

lemma cursor_ok_reachable: "cursor_ok (ScanN kw n (NewScanner source handler sc flagList))"
  using steps_ScanN cursor_ok_NewScanner steps_cursor_ok by blast

lemma src_NewScanner: "src (NewScanner source handler sc flagList) = source"
proof -
  have "src (next_rune t) = src t" for t
    using steps_frame(1) [OF steps_next] .
  then show ?thesis by (simp add: NewScanner_def Let_def)
qed

lemma Scan_at_eof:
  assumes "cursor_ok s" "char s = eof"
  shows "Scan kw s = (s, EOF, [])"
proof -
  have ws: "skipWhitespace s = s"
    using assms(2) by (subst skipWhitespace.simps) (simp add: eof_def)
  have "next_rune s = s\<lparr>offset := length (src s), char := eof\<rparr>"
    using assms by (simp add: next_rune_def cursor_ok_def)
  also have "\<dots> = s"
    using assms by (simp add: cursor_ok_def)
  finally show ?thesis
    using Scan_eof [OF ws [symmetric] assms(2), of kw] by simp
qed

section \<open>The claims\<close>

text \<open>
  C3: once the input is exhausted (the current rune of a scanner that \<open>NewScanner\<close> made
  and any number of calls of \<open>Scan\<close> advanced is the end-of-input value), \<open>Scan\<close> returns
  the end-of-input token with an empty literal and leaves the scanner as it was, so any
  number \<open>k\<close> of further calls leaves it unchanged as well, and the error count is not
  incremented.
\<close>

theorem Scan_idempotent_at_eof:
  fixes kw :: "string list" and n :: nat and source :: string and handler sc :: bool
    and flagList :: "string list"
  defines "s \<equiv> ScanN kw n (NewScanner source handler sc flagList)"
  assumes "char s = eof"
  shows "Scan kw s = (s, EOF, []) \<and> ScanN kw k s = s
    \<and> ErrorCount (fst (Scan kw s)) = ErrorCount s"
proof -
  have ok: "cursor_ok s" unfolding s_def by (rule cursor_ok_reachable)
  have 1: "Scan kw s = (s, EOF, [])" by (rule Scan_at_eof [OF ok assms(2)])
  have "ScanN kw k s = s" by (induction k) (simp_all add: 1)
  then show ?thesis using 1 by simp
qed

theorem Scan_idempotent_at_eof_witness:
  "char (ScanN [] 1 (NewScanner ''a'' True False [])) = eof
   \<and> Scan [] (ScanN [] 1 (NewScanner ''a'' True False []))
       = (ScanN [] 1 (NewScanner ''a'' True False []), EOF, [])
   \<and> ScanN [] 3 (ScanN [] 1 (NewScanner ''a'' True False []))
       = ScanN [] 1 (NewScanner ''a'' True False [])"
proof -
  have h: "char (ScanN [] 1 (NewScanner ''a'' True False [])) = eof"
    by code_simp
  show ?thesis
    using h Scan_idempotent_at_eof [OF h, of 3] by simp
qed

subsection \<open>Progress\<close>

lemma next_then:
  assumes "cursor_ok s" "char s \<noteq> eof" "steps (next_rune s) t"
  shows "offset s < offset t"
proof -
  have "cursor_ok (next_rune s)" using assms(1) steps_next steps_cursor_ok by blast
  then have "offset (next_rune s) \<le> offset t" using assms(3) steps_offset by blast
  then show ?thesis using next_advances [OF assms(1,2)] by linarith
qed

lemma isDecimal_digitVal: "isDecimal c \<Longrightarrow> digitVal c < 10"
  by (auto simp: isDecimal_def digitVal_def)

lemma scanIdentifier_via_next:
  assumes "isLetter (char s)"
  shows "steps (next_rune s) (fst (scanIdentifier s))"
proof -
  have "scanIdentifier_loop s = scanIdentifier_loop (next_rune s)"
    using assms by (subst scanIdentifier_loop.simps) simp
  then show ?thesis by (simp add: scanIdentifier_def Let_def steps_scanIdentifier_loop)
qed

lemma scanNumber_via_next:
  assumes "isDecimal (char s) \<or> char s = rune CHR ''.''"
  shows "steps (next_rune s) (fst (scanNumber s))"
proof -
  obtain s1 t1 where 1: "scanNumber_int (offset s) s = (s1, t1)"
    by (cases "scanNumber_int (offset s) s")
  obtain s2 t2 where 2: "scanNumber_frac (offset s) t1 s1 = (s2, t2)"
    by (cases "scanNumber_frac (offset s) t1 s1")
  have s12: "steps s1 s2" using steps_scanNumber_frac [of s1 "offset s" t1] 2 by simp
  have res: "fst (scanNumber s) = s2" by (simp add: scanNumber_def 1 2)
  show ?thesis
  proof (cases "char s = rune CHR ''.''")
    case True
    then have "s1 = s" using 1 by (simp add: scanNumber_int_def)
    then have "s2 = fst (scanNumber_frac (offset s) t1 s)" using 2 by simp
    moreover have "steps (next_rune s) (scanDigits 10 (next_rune s))"
      by (rule steps_scanDigits)
    moreover have "steps (next_rune s) (error off m (scanDigits 10 (next_rune s)))" for off m
      using steps_scanDigits steps_error steps_trans by blast
    ultimately have "steps (next_rune s) s2"
      using True by (simp add: scanNumber_frac_def Let_def)
    then show ?thesis by (simp add: res)
  next
    case False
    then have dec: "isDecimal (char s)" using assms by blast
    have "steps (next_rune s) s1"
    proof (cases "char s = rune CHR ''0''")
      case True
      then show ?thesis
        using 1 False steps_scanNumber_prefix [of "next_rune s" "offset s"]
        by (auto simp: scanNumber_int_def Let_def steps_refl split: if_splits)
    next
      case z: False
      have "scanDigits 10 s = scanDigits 10 (next_rune s)"
        using isDecimal_digitVal [OF dec] isDecimal_not_eof [OF dec]
        by (subst scanDigits.simps) simp
      then show ?thesis
        using 1 False z steps_scanDigits [of "next_rune s" 10]
        by (auto simp: scanNumber_int_def)
    qed
    then show ?thesis using s12 res steps_trans by auto
  qed
qed

lemma Scan_via_next:
  assumes "s = skipWhitespace s0" "char s \<noteq> eof"
  shows "steps (next_rune s) (fst (Scan kw s0))"
proof (cases s rule: Scan_branch)
  case ident
  then show ?thesis by (simp add: Scan_ident [OF assms(1) ident] scanIdentifier_via_next)
next
  case number
  then show ?thesis by (auto simp add: Scan_number [OF assms(1) number] scanNumber_via_next)
next
  case eof
  then show ?thesis using assms(2) by simp
next
  case string
  then show ?thesis by (simp add: Scan_string [OF assms(1) string] steps_scanString)
next
  case raw
  then show ?thesis by (simp add: Scan_rawstring [OF assms(1) raw] steps_scanRawString)
next
  case chr
  then show ?thesis by (simp add: Scan_char [OF assms(1) chr] steps_scanChar)
next
  case dot
  then show ?thesis by (simp add: Scan_dot [OF assms(1) dot] steps_refl)
next
  case comment
  have "steps (next_rune s) (fst (scanComment (next_rune s)))" by (rule steps_scanComment)
  moreover have "steps (fst (scanComment (next_rune s)))
     (fst (Scan kw (fst (scanComment (next_rune s)))))" by (rule steps_Scan)
  ultimately show ?thesis
    by (auto simp add: Scan_comment [OF assms(1) comment] intro: steps_trans)
next
  case slash
  then show ?thesis by (simp add: Scan_slash [OF assms(1) slash] steps_refl)
next
  case meta
  then show ?thesis by (simp add: Scan_meta [OF assms(1) meta] steps_scanIdentifier)
next
  case meta_bad
  then show ?thesis by (simp add: Scan_meta_bad [OF assms(1) meta_bad] steps_error)
next
  case other
  have "steps (next_rune s) (next_rune (error off m (next_rune s)))" for off m
    using steps_error steps_next steps_trans by blast
  then show ?thesis by (simp add: Scan_other [OF assms(1) other])
qed

lemma Scan_advances:
  assumes "cursor_ok s0" "char s0 \<noteq> eof"
  shows "offset s0 < offset (fst (Scan kw s0))"
proof -
  define s where "s = skipWhitespace s0"
  have ok: "cursor_ok s" and le: "offset s0 \<le> offset s"
    unfolding s_def using assms(1) steps_skipWhitespace steps_cursor_ok steps_offset by blast+
  have len: "offset s0 < length (src s0)"
    using assms by (auto simp: cursor_ok_def)
  have src: "src s = src s0"
    unfolding s_def using steps_frame(1) [OF steps_skipWhitespace] .
  show ?thesis
  proof (cases "char s = eof")
    case True
    have "Scan kw s0 = (s, EOF, [])"
      using Scan_eof [OF s_def True, of kw] Scan_at_eof [OF ok True, of kw]
        Scan_eof [OF _ True, of s kw] ok True
      by (simp add: next_rune_def cursor_ok_def)
    moreover have "offset s = length (src s0)" using ok True src by (simp add: cursor_ok_def)
    ultimately show ?thesis using len by simp
  next
    case False
    have "offset s < offset (fst (Scan kw s0))"
      using next_then [OF ok False Scan_via_next [OF s_def False]] .
    then show ?thesis using le by linarith
  qed
qed

lemma reaches_eof:
  "cursor_ok s \<Longrightarrow> length (src s) - offset s \<le> k
   \<Longrightarrow> \<exists>m\<le>k. char (ScanN kw m s) = eof"
proof (induction k arbitrary: s)
  case 0
  then have "char s = eof" by (auto simp: cursor_ok_def split: if_splits)
  then show ?case by (intro exI [of _ 0]) simp
next
  case (Suc k)
  show ?case
  proof (cases "char s = eof")
    case True
    then show ?thesis by (intro exI [of _ 0]) simp
  next
    case False
    define t where "t = fst (Scan kw s)"
    have st: "steps s t" unfolding t_def by (rule steps_Scan)
    have "offset s < offset t" unfolding t_def by (rule Scan_advances [OF Suc(2) False])
    moreover have "src t = src s" using steps_frame(1) [OF st] .
    ultimately have "length (src t) - offset t \<le> k" using Suc(3) by simp
    moreover have "cursor_ok t" using st Suc(2) steps_cursor_ok by blast
    ultimately obtain m where "m \<le> k" "char (ScanN kw m t) = eof" using Suc.IH by blast
    then show ?thesis by (intro exI [of _ "Suc m"]) (simp add: t_def)
  qed
qed

text \<open>
  C9, as amended: on a scanner that \<open>NewScanner\<close> made and any number of calls of \<open>Scan\<close>
  advanced, a call of \<open>Scan\<close> with the current rune not the end-of-input value strictly
  increases \<open>offset\<close>, the offset of the current rune (on every path, the error paths
  included); and for every buffer the end-of-input token is returned after at most
  \<open>length source\<close> earlier calls. \<open>Scan\<close> is a total function: each call terminates.
\<close>

theorem Scan_progress:
  fixes kw :: "string list" and n :: nat and source :: string and handler sc :: bool
    and flagList :: "string list"
  defines "s \<equiv> ScanN kw n (NewScanner source handler sc flagList)"
  shows "(char s \<noteq> eof \<longrightarrow> offset s < offset (fst (Scan kw s)))
    \<and> (\<exists>m\<le>length source.
          fst (snd (Scan kw (ScanN kw m (NewScanner source handler sc flagList)))) = EOF)"
proof -
  have ok: "cursor_ok s" unfolding s_def by (rule cursor_ok_reachable)
  define s0 where "s0 = NewScanner source handler sc flagList"
  have "cursor_ok s0" unfolding s0_def by (rule cursor_ok_NewScanner)
  moreover have "length (src s0) - offset s0 \<le> length source"
    by (simp add: s0_def src_NewScanner)
  ultimately obtain m where m: "m \<le> length source" "char (ScanN kw m s0) = eof"
    using reaches_eof by blast
  have "cursor_ok (ScanN kw m s0)" unfolding s0_def by (rule cursor_ok_reachable)
  then have "fst (snd (Scan kw (ScanN kw m s0))) = EOF"
    using Scan_at_eof m(2) by simp
  then show ?thesis
    using m(1) Scan_advances [OF ok] unfolding s0_def by blast
qed

theorem Scan_progress_witness:
  "char (ScanN [] 0 (NewScanner ''a'' True False [])) \<noteq> eof
   \<and> offset (ScanN [] 0 (NewScanner ''a'' True False []))
       < offset (fst (Scan [] (ScanN [] 0 (NewScanner ''a'' True False []))))"
proof -
  have h: "char (ScanN [] 0 (NewScanner ''a'' True False [])) \<noteq> eof"
    by code_simp
  show ?thesis
    using h Scan_progress [of "[]" 0 "''a''" True False "[]"] by blast
qed

text \<open>
  C9 as stated fails for \<open>readOffset\<close>: on the buffer \<open>a\<close> the first call of \<open>Scan\<close> starts
  with the current rune \<open>a\<close>, not the end-of-input value, and leaves \<open>readOffset\<close> at 1,
  the length of the buffer, where \<open>NewScanner\<close> had already put it.
\<close>

theorem readOffset_not_advanced:
  "char (NewScanner ''a'' True False []) \<noteq> eof
   \<and> readOffset (fst (Scan [] (NewScanner ''a'' True False [])))
       = readOffset (NewScanner ''a'' True False [])"
  by code_simp

subsection \<open>One byte wide runes, and calls of next that print nothing\<close>

lemma next_offset_ascii:
  assumes "cursor_ok s" "0 \<le> char s" "char s < 0x80"
  shows "offset (next_rune s) = offset s + 1"
proof -
  have "char s \<noteq> eof" using assms(2) by (simp add: eof_def)
  then have ro: "readOffset s = offset s + 1" "readOffset s \<le> length (src s)"
    using assms by (simp_all add: cursor_ok_def)
  show ?thesis
    using ro by (cases s rule: next_rune_cases) simp_all
qed

lemma next_quiet:
  assumes "length (src s) \<le> readOffset s
    \<or> (0 < rune (src s ! readOffset s) \<and> rune (src s ! readOffset s) < 0x80)"
  shows "printed (next_rune s) = printed s" "ErrorCount (next_rune s) = ErrorCount s"
  using assms by (auto simp: next_rune_def Let_def RuneSelf_def)

lemma skipWhitespace_id:
  assumes "char s \<noteq> rune CHR '' ''" "char s \<noteq> rune CHR 0x09" "char s \<noteq> rune CHR 0x0A"
    "char s \<noteq> rune CHR 0x0D"
  shows "skipWhitespace s = s"
  using assms by (subst skipWhitespace.simps) simp

text \<open>
  C10, as amended: on a scanner that satisfies the invariant of the cursor, scanning a
  \<open>/\<close> that is not followed by \<open>/\<close> or \<open>*\<close>, or a \<open>.\<close> that is not followed by a decimal
  digit, is one call of \<open>next\<close>: it consumes exactly that one byte, returns the illegal kind
  with an empty literal, never calls the handler and emits no diagnostic of its own. The
  only diagnostic the call can add is the one \<open>next\<close> emits for the code point that follows
  (NUL, illegal UTF-8, byte order mark); when the following byte is a non-NUL ASCII byte or
  the input ends there, the error count and the printed lines are unchanged. Every other
  rune that no branch of \<open>Scan\<close> recognises gives the illegal kind with an empty literal and
  prints \<open>invalid token\<close>, raising the error count.
\<close>

theorem illegal_slash_dot:
  assumes "cursor_ok s"
  shows "((char s = rune CHR ''/'' \<and> char (next_rune s) \<noteq> rune CHR ''/''
            \<and> char (next_rune s) \<noteq> rune CHR ''*'')
          \<or> (char s = rune CHR ''.'' \<and> \<not> isDecimal (rune (peek s)))
        \<longrightarrow> Scan kw s = (next_rune s, ILLEGAL, [])
            \<and> offset (next_rune s) = offset s + 1
            \<and> handlerCalls (next_rune s) = handlerCalls s
            \<and> (length (src s) \<le> readOffset s
                  \<or> (0 < rune (src s ! readOffset s) \<and> rune (src s ! readOffset s) < 0x80)
               \<longrightarrow> ErrorCount (next_rune s) = ErrorCount s
                   \<and> printed (next_rune s) = printed s))
    \<and> (\<not> isLetter (char s) \<and> \<not> isDecimal (char s)
         \<and> char s \<notin> {eof, rune CHR '' '', rune CHR 0x09, rune CHR 0x0A, rune CHR 0x0D,
               rune CHR 0x22, rune CHR 0x60, rune CHR 0x27, rune CHR ''.'', rune CHR ''/'',
               rune CHR ''@''}
        \<longrightarrow> fst (snd (Scan kw s)) = ILLEGAL \<and> snd (snd (Scan kw s)) = []
            \<and> (\<exists>es. printed (fst (Scan kw s))
                  = printed (next_rune s) @ Msg ''invalid token'' # es)
            \<and> ErrorCount s < ErrorCount (fst (Scan kw s)))"
proof (intro conjI impI)
  assume h: "(char s = rune CHR ''/'' \<and> char (next_rune s) \<noteq> rune CHR ''/''
            \<and> char (next_rune s) \<noteq> rune CHR ''*'')
          \<or> (char s = rune CHR ''.'' \<and> \<not> isDecimal (rune (peek s)))"
  then have c: "char s = rune CHR ''/'' \<or> char s = rune CHR ''.''" by blast
  have ws: "s = skipWhitespace s" using c by (intro skipWhitespace_id [symmetric]) auto
  show "Scan kw s = (next_rune s, ILLEGAL, [])"
    using h Scan_slash [OF ws, of kw] Scan_dot [OF ws, of kw] by blast
  show "offset (next_rune s) = offset s + 1"
    using c by (intro next_offset_ascii [OF assms]) auto
  show "handlerCalls (next_rune s) = handlerCalls s"
    using steps_frame(4) [OF steps_next] .
  {
    assume q: "length (src s) \<le> readOffset s
      \<or> (0 < rune (src s ! readOffset s) \<and> rune (src s ! readOffset s) < 0x80)"
    show "ErrorCount (next_rune s) = ErrorCount s" by (rule next_quiet(2) [OF q])
    show "printed (next_rune s) = printed s" by (rule next_quiet(1) [OF q])
  }
next
  assume h: "\<not> isLetter (char s) \<and> \<not> isDecimal (char s)
         \<and> char s \<notin> {eof, rune CHR '' '', rune CHR 0x09, rune CHR 0x0A, rune CHR 0x0D,
               rune CHR 0x22, rune CHR 0x60, rune CHR 0x27, rune CHR ''.'', rune CHR ''/'',
               rune CHR ''@''}"
  have ws: "s = skipWhitespace s" using h by (intro skipWhitespace_id [symmetric]) auto
  define e where "e = error (offset (next_rune s)) (Msg ''invalid token'') (next_rune s)"
  have S: "Scan kw s = (next_rune e, ILLEGAL, [])"
    unfolding e_def using h by (intro Scan_other [OF ws]) auto
  show "fst (snd (Scan kw s)) = ILLEGAL" "snd (snd (Scan kw s)) = []"
    by (simp_all add: S)
  obtain es where es: "printed (next_rune e) = printed e @ es"
    "ErrorCount (next_rune e) = ErrorCount e + length es"
    using steps_printed [OF steps_next, of e] by blast
  have pe: "printed e = printed (next_rune s) @ [Msg ''invalid token'']"
    "ErrorCount e = ErrorCount (next_rune s) + 1"
    by (simp_all add: e_def error_eq)
  show "\<exists>es. printed (fst (Scan kw s)) = printed (next_rune s) @ Msg ''invalid token'' # es"
    by (simp add: S es pe)
  obtain es' :: "message list" where "ErrorCount (next_rune s) = ErrorCount s + length es'"
    using steps_printed [OF steps_next, of s] by blast
  then show "ErrorCount s < ErrorCount (fst (Scan kw s))"
    by (simp add: S es pe)
qed

theorem illegal_slash_dot_witness:
  "cursor_ok (NewScanner ''/a'' True False [])
   \<and> char (NewScanner ''/a'' True False []) = rune CHR ''/''
   \<and> Scan [] (NewScanner ''/a'' True False [])
       = (next_rune (NewScanner ''/a'' True False []), ILLEGAL, [])
   \<and> offset (next_rune (NewScanner ''/a'' True False [])) = 1
   \<and> ErrorCount (next_rune (NewScanner ''/a'' True False [])) = 0
   \<and> char (NewScanner ''$'' True False []) = rune CHR ''$''
   \<and> fst (snd (Scan [] (NewScanner ''$'' True False []))) = ILLEGAL
   \<and> ErrorCount (NewScanner ''$'' True False [])
       < ErrorCount (fst (Scan [] (NewScanner ''$'' True False [])))"
proof -
  let ?s = "NewScanner ''/a'' True False []"
  let ?t = "NewScanner ''$'' True False []"
  have ok: "cursor_ok ?s" "cursor_ok ?t" by (rule cursor_ok_NewScanner)+
  have h: "char ?s = rune CHR ''/''" "char (next_rune ?s) \<noteq> rune CHR ''/''"
    "char (next_rune ?s) \<noteq> rune CHR ''*''" "offset ?s = 0" "ErrorCount ?s = 0"
    "0 < rune (src ?s ! readOffset ?s)" "rune (src ?s ! readOffset ?s) < 0x80"
    by code_simp+
  have g: "char ?t = rune CHR ''$''" "\<not> isLetter (char ?t)" "\<not> isDecimal (char ?t)"
    by code_simp+
  have g': "char ?t \<notin> {eof, rune CHR '' '', rune CHR 0x09, rune CHR 0x0A, rune CHR 0x0D,
               rune CHR 0x22, rune CHR 0x60, rune CHR 0x27, rune CHR ''.'', rune CHR ''/'',
               rune CHR ''@''}"
    unfolding g(1) by (simp add: eof_def)
  show ?thesis
    using illegal_slash_dot [OF ok(1), of "[]"] illegal_slash_dot [OF ok(2), of "[]"] ok h g g'
    by simp
qed

text \<open>
  C10 as stated fails: on the buffer \<open>/\<close> followed by a NUL byte, \<open>/\<close> is not followed by
  \<open>/\<close> or \<open>*\<close>, and the call that returns its illegal token with an empty literal raises the
  error count from 0 to 1, for the NUL that \<open>next\<close> reads while consuming the \<open>/\<close>.
\<close>

theorem slash_before_NUL_counts_an_error:
  "char (NewScanner [CHR ''/'', CHR 0x00] True False []) = rune CHR ''/''
   \<and> char (next_rune (NewScanner [CHR ''/'', CHR 0x00] True False [])) \<noteq> rune CHR ''/''
   \<and> char (next_rune (NewScanner [CHR ''/'', CHR 0x00] True False [])) \<noteq> rune CHR ''*''
   \<and> ErrorCount (NewScanner [CHR ''/'', CHR 0x00] True False []) = 0
   \<and> fst (snd (Scan [] (NewScanner [CHR ''/'', CHR 0x00] True False []))) = ILLEGAL
   \<and> snd (snd (Scan [] (NewScanner [CHR ''/'', CHR 0x00] True False []))) = []
   \<and> ErrorCount (fst (Scan [] (NewScanner [CHR ''/'', CHR 0x00] True False []))) = 1
   \<and> printed (fst (Scan [] (NewScanner [CHR ''/'', CHR 0x00] True False [])))
       = [Msg ''illegal character NUL'']"
  by code_simp

subsection \<open>The kinds that Scan returns\<close>

lemma scanNumber_kinds: "fst (snd (scanNumber s)) \<in> {INT_T, FLOAT, ILLEGAL}"
proof -
  have 1: "snd (scanNumber_prefix off t) \<in> {INT_T, FLOAT, ILLEGAL}" for off t
    by (simp add: scanNumber_prefix_def Let_def split: prod.splits)
  have 2: "snd (scanNumber_int off t) \<in> {INT_T, FLOAT, ILLEGAL}" for off t
    using 1 [of off "next_rune t"] by (simp add: scanNumber_int_def Let_def)
  have 3: "tok \<in> {INT_T, FLOAT, ILLEGAL}
      \<Longrightarrow> snd (scanNumber_frac off tok t) \<in> {INT_T, FLOAT, ILLEGAL}" for off tok t
    by (simp add: scanNumber_frac_def Let_def)
  obtain s1 t1 where a: "scanNumber_int (offset s) s = (s1, t1)"
    by (cases "scanNumber_int (offset s) s")
  obtain s2 t2 where b: "scanNumber_frac (offset s) t1 s1 = (s2, t2)"
    by (cases "scanNumber_frac (offset s) t1 s1")
  have "t1 \<in> {INT_T, FLOAT, ILLEGAL}" using 2 [of "offset s" s] a by simp
  then have "t2 \<in> {INT_T, FLOAT, ILLEGAL}" using 3 [of t1 "offset s" s1] b by simp
  then show ?thesis by (simp add: scanNumber_def a b)
qed

lemma Scan_kinds:
  "fst (snd (Scan kw s0)) \<noteq> RAWSTRING
   \<and> (fst (snd (Scan kw s0)) = COMMENT \<longrightarrow> scanComments s0)"
proof (induction kw s0 rule: Scan.induct)
  case (1 kw s0)
  define s where "s = skipWhitespace s0"
  show ?case
  proof (cases s rule: Scan_branch)
    case ident
    show ?thesis by (simp add: Scan_ident [OF s_def ident] Lookup_def)
  next
    case number
    show ?thesis using scanNumber_kinds [of s] by (auto simp add: Scan_number [OF s_def number])
  next
    case eof
    show ?thesis by (simp add: Scan_eof [OF s_def eof])
  next
    case string
    show ?thesis by (simp add: Scan_string [OF s_def string])
  next
    case raw
    show ?thesis by (simp add: Scan_rawstring [OF s_def raw])
  next
    case chr
    show ?thesis by (simp add: Scan_char [OF s_def chr])
  next
    case dot
    show ?thesis by (simp add: Scan_dot [OF s_def dot])
  next
    case comment
    define s' where "s' = fst (scanComment (next_rune s))"
    have "steps s0 s"
      unfolding s_def by (rule steps_skipWhitespace)
    then have "steps s0 s'"
      unfolding s'_def using steps_next steps_scanComment steps_trans by blast
    then have sc: "scanComments s' = scanComments s0" by (rule steps_frame(2))
    show ?thesis
    proof (cases "scanComments s'")
      case True
      then show ?thesis using sc by (simp add: Scan_comment [OF s_def comment] s'_def)
    next
      case False
      have nl: "\<not> isLetter (char s)"
        and nd: "\<not> (isDecimal (char s) \<or> (char s = rune CHR ''.'' \<and> isDecimal (rune (peek s))))"
        and ne: "char s \<noteq> eof" "char s \<noteq> rune CHR 0x22" "char s \<noteq> rune CHR 0x60"
          "char s \<noteq> rune CHR 0x27" "char s \<noteq> rune CHR ''.''"
        using comment(1) by (simp_all add: isLetter_def isDecimal_def eof_def)
      have "fst (snd (Scan kw s')) \<noteq> RAWSTRING
          \<and> (fst (snd (Scan kw s')) = COMMENT \<longrightarrow> scanComments s')"
        using 1 [OF s_def nl nd refl refl ne comment(1,2) refl prod.collapse] False
        by (simp add: s'_def)
      then show ?thesis
        using False sc by (simp add: Scan_comment [OF s_def comment] s'_def)
    qed
  next
    case slash
    show ?thesis by (simp add: Scan_slash [OF s_def slash])
  next
    case meta
    show ?thesis by (simp add: Scan_meta [OF s_def meta])
  next
    case meta_bad
    show ?thesis by (simp add: Scan_meta_bad [OF s_def meta_bad])
  next
    case other
    show ?thesis by (simp add: Scan_other [OF s_def other])
  qed
qed


text \<open>
  C1 fails on the code: with a handler given, scanning \<open>3.\<close> produces the diagnostic
  \<open>float has no digits after .\<close>, which is printed and counted once, and the scan goes on to
  return the illegal token, but the handler is not called.
\<close>

theorem error_handler_not_called:
  "err (NewScanner ''3.'' True False [])
   \<and> fst (snd (Scan [] (NewScanner ''3.'' True False []))) = ILLEGAL
   \<and> snd (snd (Scan [] (NewScanner ''3.'' True False []))) = ''3.''
   \<and> ErrorCount (fst (Scan [] (NewScanner ''3.'' True False []))) = 1
   \<and> printed (fst (Scan [] (NewScanner ''3.'' True False [])))
       = [Msg ''float has no digits after .'']
   \<and> handlerCalls (fst (Scan [] (NewScanner ''3.'' True False []))) = []"
  by code_simp

subsection \<open>Evaluating the scanner on a buffer\<close>

lemmas eval_simps = NewScanner_def next_rune_def Let_def Scan.simps skipWhitespace.simps
  scanIdentifier_def scanIdentifier_loop.simps scanComment_def scanComment_line.simps
  scanComment_block.simps isLetter_def isDecimal_def peek_def slice_def eof_def bom_def
  RuneSelf_def error_eq Lookup_def

lemma scanComments_NewScanner: "scanComments (NewScanner source handler sc fl) = sc"
proof -
  have "scanComments (next_rune t) = scanComments t" for t
    using steps_frame(2) [OF steps_next] .
  then show ?thesis by (simp add: NewScanner_def Let_def)
qed

text \<open>The buffer of the spec's example: a line comment, a newline and \<open>foo\<close>.\<close>

definition comment_then_foo :: string where
  "comment_then_foo =
     [CHR ''/'', CHR ''/'', CHR '' '', CHR ''x'', CHR 0x0A, CHR ''f'', CHR ''o'', CHR ''o'']"

subsection \<open>The digit loop of scanEscape\<close>

text \<open>The number that a list of digit values denotes in a base.\<close>

definition digits_value :: "nat \<Rightarrow> nat list \<Rightarrow> nat" where
  "digits_value base ds = foldl (\<lambda>v d. v * base + d) 0 ds"

text \<open>The digit values of the \<open>n\<close> runes from the current one on.\<close>

definition digits_ahead :: "nat \<Rightarrow> Scanner \<Rightarrow> nat list" where
  "digits_ahead n s = map (\<lambda>i. digitVal (char ((next_rune ^^ i) s))) [0..<n]"

lemma digits_ahead_Suc:
  "digits_ahead (Suc n) s = digitVal (char s) # digits_ahead n (next_rune s)"
  by (simp add: digits_ahead_def map_upt_Suc funpow_swap1 del: upt_Suc)

lemma scanEscape_digits_numeral:
  "scanEscape_digits off (numeral k) base mx x s =
     (let d = digitVal (char s) in
      if d \<ge> base then (error (offset s) (escape_digit_msg (char s)) s, False)
      else scanEscape_digits off (pred_numeral k) base mx ((x * base + d) mod 2 ^ 32)
             (next_rune s))"
  by (simp add: numeral_eq_Suc)

lemma scanEscape_digits_all:
  assumes "\<forall>d\<in>set (digits_ahead n s). d < base"
  shows "scanEscape_digits off n base mx x s =
    scanEscape_digits off 0 base mx
      (foldl (\<lambda>v d. (v * base + d) mod 2 ^ 32) x (digits_ahead n s)) ((next_rune ^^ n) s)"
  using assms
proof (induction n arbitrary: x s)
  case 0
  show ?case by (simp add: digits_ahead_def)
next
  case (Suc n)
  have d0: "digitVal (char s) < base" and rest: "\<forall>d\<in>set (digits_ahead n (next_rune s)). d < base"
    using Suc.prems by (simp_all add: digits_ahead_Suc)
  show ?case
    using d0 Suc.IH [OF rest]
    by (simp add: digits_ahead_Suc funpow_swap1 Let_def del: scanEscape_digits.simps(1))
qed

lemma scanEscape_digits_stop:
  assumes "k < n" "\<forall>d\<in>set (digits_ahead k s). d < base"
    "base \<le> digitVal (char ((next_rune ^^ k) s))"
  shows "scanEscape_digits off n base mx x s =
    (error (offset ((next_rune ^^ k) s)) (escape_digit_msg (char ((next_rune ^^ k) s)))
       ((next_rune ^^ k) s), False)"
  using assms
proof (induction k arbitrary: n x s)
  case 0
  then obtain n' where "n = Suc n'" by (cases n) auto
  then show ?case using 0 by (simp add: Let_def)
next
  case (Suc k)
  then obtain n' where n: "n = Suc n'" "k < n'" by (cases n) auto
  have d0: "digitVal (char s) < base" and rest: "\<forall>d\<in>set (digits_ahead k (next_rune s)). d < base"
    using Suc.prems(2) by (simp_all add: digits_ahead_Suc)
  have "base \<le> digitVal (char ((next_rune ^^ k) (next_rune s)))"
    using Suc.prems(3) by (simp add: funpow_swap1)
  from Suc.IH [OF n(2) rest this] show ?case
    using d0 by (simp add: n funpow_swap1 Let_def)
qed

text \<open>Up to eight digits of a base up to 16 stay below \<open>2 ^ 32\<close>: the uint32 does not wrap.\<close>

lemma accum_no_wrap:
  fixes base :: nat
  assumes "\<forall>d\<in>set ds. d < base" "x < base ^ k" "k + length ds \<le> 8" "base \<le> 16"
  shows "foldl (\<lambda>v d. (v * base + d) mod 2 ^ 32) x ds = foldl (\<lambda>v d. v * base + d) x ds
    \<and> foldl (\<lambda>v d. v * base + d) x ds < base ^ (k + length ds)"
  using assms
proof (induction ds arbitrary: x k)
  case Nil
  then show ?case by simp
next
  case (Cons d ds)
  have d: "d < base" using Cons.prems(1) by simp
  have "x + 1 \<le> base ^ k" using Cons.prems(2) by simp
  then have "(x + 1) * base \<le> base ^ k * base" by (rule mult_le_mono1)
  then have lt: "x * base + d < base ^ Suc k" using d by (simp add: algebra_simps)
  have "base ^ Suc k \<le> (16::nat) ^ Suc k" using Cons.prems(4) by (rule power_mono) simp
  also have "\<dots> \<le> 16 ^ 8" using Cons.prems(3) by (intro power_increasing) simp_all
  finally have "x * base + d < 2 ^ 32" using lt by simp
  then have m: "(x * base + d) mod 2 ^ 32 = x * base + d" by simp
  have "Suc k + length ds \<le> 8" using Cons.prems(3) by simp
  from Cons.IH [OF _ lt this Cons.prems(4)] Cons.prems(1) m
  show ?case by simp
qed

lemma accum_digits_value:
  assumes "\<forall>d\<in>set ds. d < base" "length ds \<le> 8" "base \<le> 16"
  shows "foldl (\<lambda>v d. (v * base + d) mod 2 ^ 32) 0 ds = digits_value base ds"
  using accum_no_wrap [OF assms(1), of 0 0] assms(2,3) by (simp add: digits_value_def)

lemma digitVal_ascii:
  assumes "digitVal c < 16"
  shows "0 \<le> c \<and> c < 0x80"
proof (cases "rune CHR ''0'' \<le> c \<and> c \<le> rune CHR ''9''")
  case True
  then show ?thesis by simp
next
  case False
  then have "97 \<le> lower c" "lower c \<le> 102"
    using assms by (auto simp: digitVal_def split: if_splits)
  then have l: "97 \<le> 32 OR c" "32 OR c \<le> 102"
    by (simp_all add: lower_def)
  have nn: "0 \<le> c"
  proof (rule ccontr)
    assume "\<not> 0 \<le> c"
    then have "32 OR c < 0" by simp
    then show False using l(1) by linarith
  qed
  then have "c \<le> 32 OR c" using or_greater_eq [of 32 c] by (simp add: or.commute)
  then show ?thesis using l(2) nn by linarith
qed

lemma cursor_ok_funpow: "cursor_ok s \<Longrightarrow> cursor_ok ((next_rune ^^ k) s)"
  by (induction k) (auto intro: steps_cursor_ok [OF steps_next])

lemma offset_funpow_ascii:
  assumes "cursor_ok s" "\<forall>i<k. 0 \<le> char ((next_rune ^^ i) s) \<and> char ((next_rune ^^ i) s) < 0x80"
  shows "offset ((next_rune ^^ k) s) = offset s + k"
  using assms(2)
proof (induction k)
  case 0
  show ?case by simp
next
  case (Suc k)
  have "offset (next_rune ((next_rune ^^ k) s)) = offset ((next_rune ^^ k) s) + 1"
    using Suc.prems by (intro next_offset_ascii cursor_ok_funpow [OF assms(1)]) auto
  then show ?case using Suc by simp
qed

text \<open>The diagnostics that \<open>next\<close> emits; a call of \<open>next\<close> adds no other.\<close>

definition cursor_messages :: "message set" where
  "cursor_messages = {Msg ''illegal character NUL'', Msg ''illegal UTF-8 encoding'',
     Msg ''illegal byte order mark''}"

lemma count_next:
  assumes "m \<notin> cursor_messages"
  shows "count_list (printed (next_rune s)) m = count_list (printed s) m"
  using assms
  by (auto simp: next_rune_def Let_def error_eq cursor_messages_def split: prod.splits)

lemma count_funpow:
  assumes "m \<notin> cursor_messages"
  shows "count_list (printed ((next_rune ^^ k) s)) m = count_list (printed s) m"
  by (induction k) (simp_all add: count_next [OF assms])

lemma digits_ahead_0: "digits_ahead 0 s = []"
  by (simp add: digits_ahead_def)

lemma digits_ahead_numeral:
  "digits_ahead (numeral k) s = digitVal (char s) # digits_ahead (pred_numeral k) (next_rune s)"
  by (simp add: numeral_eq_Suc digits_ahead_Suc)

lemma digits_ahead_nth:
  "i < n \<Longrightarrow> digits_ahead n (next_rune s) ! i = digitVal (char ((next_rune ^^ Suc i) s))"
  by (simp add: digits_ahead_def funpow_swap1)

lemma length_digits_ahead: "length (digits_ahead n s) = n"
  by (simp add: digits_ahead_def)

text \<open>
  C5, as amended: when the rune after the backslash is an octal digit, the escape needs
  exactly three octal digits. If the second or the third rune is not an octal digit the
  escape is rejected there, with a diagnostic for that rune (\<open>illegal character ... in escape
  sequence\<close>, or \<open>escape sequence not terminated\<close> at the end of input), and that rune is
  not consumed. With three octal digits they are consumed and the escape is valid exactly
  when their value is at most 255; a larger value is rejected with \<open>escape sequence is
  invalid Unicode code point\<close>.
\<close>

theorem octal_escape:
  assumes "rune CHR ''0'' \<le> char s" "char s \<le> rune CHR ''7''"
  shows "(let s1 = next_rune s; s2 = next_rune s1; s3 = next_rune s2;
              d0 = digitVal (char s); d1 = digitVal (char s1); d2 = digitVal (char s2);
              v = digits_value 8 [d0, d1, d2]
          in (8 \<le> d1 \<longrightarrow> scanEscape (rune CHR 0x22) s
                 = (error (offset s1) (escape_digit_msg (char s1)) s1, False))
           \<and> (d1 < 8 \<and> 8 \<le> d2 \<longrightarrow> scanEscape (rune CHR 0x22) s
                 = (error (offset s2) (escape_digit_msg (char s2)) s2, False))
           \<and> (d1 < 8 \<and> d2 < 8 \<longrightarrow> scanEscape (rune CHR 0x22) s
                 = (if 255 < v
                    then (error (offset s) (Msg ''escape sequence is invalid Unicode code point'')
                            s3, False)
                    else (s3, True))))"
proof -
  define s1 where "s1 = next_rune s"
  define s2 where "s2 = next_rune s1"
  define s3 where "s3 = next_rune s2"
  define d0 where "d0 = digitVal (char s)"
  define d1 where "d1 = digitVal (char s1)"
  define d2 where "d2 = digitVal (char s2)"
  have d0: "d0 < 8" using assms by (auto simp: d0_def digitVal_def)
  have E: "scanEscape (rune CHR 0x22) s = scanEscape_digits (offset s) 3 8 255 0 s"
    using assms by (auto simp: scanEscape_def Let_def)
  have A: "scanEscape (rune CHR 0x22) s
      = (error (offset s1) (escape_digit_msg (char s1)) s1, False)" if "8 \<le> d1"
    using that d0 unfolding E
    by (simp add: scanEscape_digits_numeral Let_def d0_def d1_def s1_def)
  have B: "scanEscape (rune CHR 0x22) s
      = (error (offset s2) (escape_digit_msg (char s2)) s2, False)" if "d1 < 8" "8 \<le> d2"
    using that d0 unfolding E
    by (simp add: scanEscape_digits_numeral Let_def d0_def d1_def d2_def s1_def s2_def)
  have C: "scanEscape (rune CHR 0x22) s
      = (if 255 < digits_value 8 [d0, d1, d2]
         then (error (offset s) (Msg ''escape sequence is invalid Unicode code point'') s3, False)
         else (s3, True))" if "d1 < 8" "d2 < 8"
  proof -
    have "d0 * 8 + d1 < 64" "(d0 * 8 + d1) * 8 + d2 < 512" using d0 that by simp_all
    then show ?thesis
      using that d0 unfolding E
      by (simp add: scanEscape_digits_numeral Let_def d0_def d1_def d2_def s1_def s2_def s3_def
          digits_value_def)
  qed
  show ?thesis
    using A B C unfolding Let_def s1_def s2_def s3_def d0_def d1_def d2_def by blast
qed

theorem octal_escape_witness:
  "rune CHR ''0'' \<le> char (NewScanner ''101'' True False [])
   \<and> char (NewScanner ''101'' True False []) \<le> rune CHR ''7''
   \<and> snd (scanEscape (rune CHR 0x22) (NewScanner ''101'' True False [])) = True
   \<and> ErrorCount (fst (scanEscape (rune CHR 0x22) (NewScanner ''101'' True False []))) = 0
   \<and> offset (fst (scanEscape (rune CHR 0x22) (NewScanner ''101'' True False []))) = 3
   \<and> rune CHR ''0'' \<le> char (NewScanner ''0z'' True False [])
   \<and> char (NewScanner ''0z'' True False []) \<le> rune CHR ''7''
   \<and> snd (scanEscape (rune CHR 0x22) (NewScanner ''0z'' True False [])) = False
   \<and> printed (fst (scanEscape (rune CHR 0x22) (NewScanner ''0z'' True False [])))
       = [IllegalCharInEscape (rune CHR ''z'')]"
proof -
  let ?s = "NewScanner ''101'' True False []"
  let ?t = "NewScanner ''0z'' True False []"
  have c: "rune CHR ''0'' \<le> char ?s" "char ?s \<le> rune CHR ''7''"
    "rune CHR ''0'' \<le> char ?t" "char ?t \<le> rune CHR ''7''"
    by (simp_all add: eval_simps)
  have e: "digitVal (char ?s) = 1" "digitVal (char (next_rune ?s)) = 0"
    "digitVal (char (next_rune (next_rune ?s))) = 1"
    "ErrorCount (next_rune (next_rune (next_rune ?s))) = 0"
    "offset (next_rune (next_rune (next_rune ?s))) = 3"
    "digitVal (char (next_rune ?t)) = 16" "char (next_rune ?t) = rune CHR ''z''"
    "printed (next_rune ?t) = []"
    by (simp_all add: eval_simps digitVal_def lower_def)
  show ?thesis
    using octal_escape [OF c(1,2)] octal_escape [OF c(3,4)] c e
    by (auto simp add: Let_def digits_value_def escape_digit_msg_def error_eq)
qed

text \<open>
  C5 as stated fails: in the string \<open>"\0"\<close> the octal escape has one digit and is followed
  by the closing quote, a non-octal rune; the escape is rejected with the diagnostic for
  that rune (U+0022), and the error count is 1.
\<close>

theorem short_octal_escape_is_rejected:
  "snd (scanEscape (rune CHR 0x22)
          (next_rune (next_rune (NewScanner [CHR 0x22, CHR 0x5C, CHR ''0'', CHR 0x22]
             True False [])))) = False
   \<and> snd (Scan [] (NewScanner [CHR 0x22, CHR 0x5C, CHR ''0'', CHR 0x22] True False []))
       = (STRING, [CHR 0x22, CHR 0x5C, CHR ''0'', CHR 0x22])
   \<and> printed (fst (Scan [] (NewScanner [CHR 0x22, CHR 0x5C, CHR ''0'', CHR 0x22] True False [])))
       = [IllegalCharInEscape (rune CHR 0x22)]
   \<and> ErrorCount (fst (Scan [] (NewScanner [CHR 0x22, CHR 0x5C, CHR ''0'', CHR 0x22]
        True False []))) = 1"
  by (simp add: eval_simps scanString_def scanString_loop.simps scanEscape_def
      scanEscape_digits_numeral digitVal_def lower_def escape_digit_msg_def)

subsection \<open>Runs of decimal digits\<close>

lemma digitVal_decimal: "digitVal c < 10 \<longleftrightarrow> isDecimal c"
  by (auto simp: digitVal_def isDecimal_def)

lemma scanDigits_none: "\<not> isDecimal (char s) \<Longrightarrow> scanDigits 10 s = s"
  by (subst scanDigits.simps) (simp add: digitVal_decimal)

lemma scanDigits_some:
  assumes "cursor_ok s" "isDecimal (char s)"
  shows "offset s < offset (scanDigits 10 s)"
proof -
  have "scanDigits 10 s = scanDigits 10 (next_rune s)"
    using assms(2) isDecimal_not_eof by (subst scanDigits.simps) (simp add: digitVal_decimal)
  then show ?thesis
    using next_then [OF assms(1) isDecimal_not_eof [OF assms(2)] steps_scanDigits] by simp
qed

lemma scanDigits_stops: "\<not> isDecimal (char (scanDigits 10 s))"
proof (induction "10::nat" s rule: scanDigits.induct)
  case (1 s)
  show ?case
  proof (cases "digitVal (char s) < 10 \<and> char s \<noteq> eof")
    case True
    then show ?thesis using 1 by (subst scanDigits.simps) simp
  next
    case False
    then have "\<not> isDecimal (char s)" using isDecimal_not_eof digitVal_decimal by blast
    then show ?thesis by (simp add: scanDigits_none)
  qed
qed

lemma count_scanDigits:
  assumes "m \<notin> cursor_messages"
  shows "count_list (printed (scanDigits base s)) m = count_list (printed s) m"
proof (induction base s rule: scanDigits.induct)
  case (1 base s)
  show ?case
  proof (cases "digitVal (char s) < base \<and> char s \<noteq> eof")
    case True
    then show ?thesis
      using 1 count_next [OF assms, of s] by (subst scanDigits.simps) simp
  next
    case False
    then show ?thesis by (subst scanDigits.simps) auto
  qed
qed

lemma count_scanNumber_int:
  "count_list (printed (fst (scanNumber_int off s))) (Msg ''float has no digits after .'')
     = count_list (printed s) (Msg ''float has no digits after .'')"
proof -
  let ?m = "Msg ''float has no digits after .''"
  have mc: "?m \<notin> cursor_messages" by (simp add: cursor_messages_def)
  have d: "count_list (printed (scanDigits base (next_rune t))) ?m = count_list (printed t) ?m"
    for base t
    by (simp add: count_scanDigits [OF mc] count_next [OF mc])
  have p: "count_list (printed (fst (scanNumber_prefix off t))) ?m = count_list (printed t) ?m"
    for t
    by (simp add: scanNumber_prefix_def Let_def error_eq d split: prod.splits)
  show ?thesis
    using p [of "next_rune s"]
    by (simp add: scanNumber_int_def Let_def count_next [OF mc] count_scanDigits [OF mc])
qed

subsection \<open>Where a token starts\<close>

text \<open>
  The state at which the token that \<open>Scan\<close> returns starts: after the white space, and
  after every comment that \<open>Scan\<close> discards. Its \<open>offset\<close> is the start offset of the token
  (the position that the commented-out \<open>pos = s.file.Pos(s.offset)\<close> of the call that
  returns would record); the end offset is \<open>offset\<close> of the scanner that \<open>Scan\<close> leaves.
\<close>

function tokenStart :: "Scanner \<Rightarrow> Scanner" where
  "tokenStart s0 =
     (let s = skipWhitespace s0; s1 = next_rune s in
      if char s = rune CHR ''/'' \<and> (char s1 = rune CHR ''/'' \<or> char s1 = rune CHR ''*'')
         \<and> \<not> scanComments (fst (scanComment s1))
      then tokenStart (fst (scanComment s1)) else s)"
  by pat_completeness auto
termination
proof (relation "measure remaining", goal_cases)
  case 1
  show ?case by simp
next
  case (2 s0 s s1)
  have "remaining s \<le> remaining s0"
    using 2 steps_remaining [OF steps_skipWhitespace] by simp
  moreover have "remaining s1 < remaining s"
    using 2 by (simp add: next_decreases eof_def)
  moreover have "remaining (fst (scanComment s1)) \<le> remaining s1"
    by (rule steps_remaining [OF steps_scanComment])
  ultimately show ?case by simp
qed

declare tokenStart.simps [simp del]

lemma tokenStart_here:
  assumes "s = skipWhitespace s0"
    "\<not> (char s = rune CHR ''/''
        \<and> (char (next_rune s) = rune CHR ''/'' \<or> char (next_rune s) = rune CHR ''*'')
        \<and> \<not> scanComments (fst (scanComment (next_rune s))))"
  shows "tokenStart s0 = s"
  using assms by (subst tokenStart.simps) (auto simp: Let_def)

lemma tokenStart_skip:
  assumes "s = skipWhitespace s0" "char s = rune CHR ''/''"
    "char (next_rune s) = rune CHR ''/'' \<or> char (next_rune s) = rune CHR ''*''"
    "\<not> scanComments (fst (scanComment (next_rune s)))"
  shows "tokenStart s0 = tokenStart (fst (scanComment (next_rune s)))"
  using assms by (subst tokenStart.simps) (auto simp: Let_def)

lemma scanIdentifier_lit:
  "snd (scanIdentifier s) = slice (src s) (offset s) (offset (fst (scanIdentifier s)))"
proof -
  have "snd (scanIdentifier s)
      = slice (src (fst (scanIdentifier s))) (offset s) (offset (fst (scanIdentifier s)))"
    by (simp add: scanIdentifier_def Let_def)
  then show ?thesis using steps_frame(1) [OF steps_scanIdentifier, of s] by simp
qed

lemma scanNumber_lit:
  "snd (snd (scanNumber s)) = slice (src s) (offset s) (offset (fst (scanNumber s)))"
proof -
  have "snd (snd (scanNumber s))
      = slice (src (fst (scanNumber s))) (offset s) (offset (fst (scanNumber s)))"
    by (simp add: scanNumber_def Let_def split: prod.splits)
  then show ?thesis using steps_frame(1) [OF steps_scanNumber, of s] by simp
qed

lemma scanString_lit:
  "snd (scanString s) = slice (src s) (offset s - 1) (offset (fst (scanString s)))"
proof -
  have "snd (scanString s)
      = slice (src (fst (scanString s))) (offset s - 1) (offset (fst (scanString s)))"
    by (simp add: scanString_def Let_def)
  then show ?thesis using steps_frame(1) [OF steps_scanString, of s] by simp
qed

lemma scanRawString_lit:
  "snd (scanRawString s) = slice (src s) (offset s - 1) (offset (fst (scanRawString s)))"
proof -
  have "snd (scanRawString s)
      = slice (src (fst (scanRawString s))) (offset s - 1) (offset (fst (scanRawString s)))"
    by (simp add: scanRawString_def Let_def)
  then show ?thesis using steps_frame(1) [OF steps_scanRawString, of s] by simp
qed

lemma scanChar_lit:
  "snd (scanChar s) = slice (src s) (offset s - 1) (offset (fst (scanChar s)))"
proof -
  have "snd (scanChar s)
      = slice (src (fst (scanChar s))) (offset s - 1) (offset (fst (scanChar s)))"
    by (simp add: scanChar_def Let_def split: prod.splits)
  then show ?thesis using steps_frame(1) [OF steps_scanChar, of s] by simp
qed

lemma scanComment_lit:
  "snd (scanComment s) = slice (src s) (offset s - 1) (offset (fst (scanComment s)))"
proof -
  have "snd (scanComment s)
      = slice (src (fst (scanComment s))) (offset s - 1) (offset (fst (scanComment s)))"
    by (simp add: scanComment_def Let_def split: prod.splits)
  then show ?thesis using steps_frame(1) [OF steps_scanComment, of s] by simp
qed

text \<open>
  C2, as amended: with the start offset of a token the offset after the white space and the
  discarded comments, and the end offset the offset that \<open>Scan\<close> leaves, the literal of an
  identifier, keyword, integer, float, string, character, comment or end-of-input token,
  and of an illegal token that \<open>scanNumber\<close> produced, is exactly the slice of the buffer
  between the two; the literal of a meta token is that slice without its first byte, the
  \<open>@\<close>; the literal of every other illegal token is empty. The string literal \<open>"abc\n"\<close>
  (with the two characters backslash and \<open>n\<close>) is returned verbatim as a string token, with
  no error.
\<close>

theorem literal_is_source_span:
  assumes "cursor_ok s0"
  shows "(let t = tokenStart s0;
              s' = fst (Scan kw s0); tok = fst (snd (Scan kw s0)); lit = snd (snd (Scan kw s0));
              span = slice (src s0) (offset t) (offset s')
          in (tok = META \<longrightarrow> lit = slice (src s0) (offset t + 1) (offset s'))
           \<and> (tok = ILLEGAL \<longrightarrow>
                (if isDecimal (char t) \<or> (char t = rune CHR ''.'' \<and> isDecimal (rune (peek t)))
                 then lit = span else lit = []))
           \<and> (tok \<noteq> META \<and> tok \<noteq> ILLEGAL \<longrightarrow> lit = span))
    \<and> snd (Scan kw (NewScanner [CHR 0x22, CHR ''a'', CHR ''b'', CHR ''c'', CHR 0x5C, CHR ''n'',
              CHR 0x22] handler sc fl))
        = (STRING, [CHR 0x22, CHR ''a'', CHR ''b'', CHR ''c'', CHR 0x5C, CHR ''n'', CHR 0x22])
    \<and> ErrorCount (fst (Scan kw (NewScanner [CHR 0x22, CHR ''a'', CHR ''b'', CHR ''c'', CHR 0x5C,
              CHR ''n'', CHR 0x22] handler sc fl))) = 0"
proof -
  define P where "P kw s0 \<longleftrightarrow>
    (let t = tokenStart s0;
         s' = fst (Scan kw s0); tok = fst (snd (Scan kw s0)); lit = snd (snd (Scan kw s0));
         span = slice (src s0) (offset t) (offset s')
     in (tok = META \<longrightarrow> lit = slice (src s0) (offset t + 1) (offset s'))
      \<and> (tok = ILLEGAL \<longrightarrow>
           (if isDecimal (char t) \<or> (char t = rune CHR ''.'' \<and> isDecimal (rune (peek t)))
            then lit = span else lit = []))
      \<and> (tok \<noteq> META \<and> tok \<noteq> ILLEGAL \<longrightarrow> lit = span))" for kw s0
  have "cursor_ok s0 \<Longrightarrow> P kw s0"
  proof (induction kw s0 rule: Scan.induct)
    case (1 kw s0)
    define s where "s = skipWhitespace s0"
    define s1 where "s1 = next_rune s"
    have st: "steps s0 s" unfolding s_def by (rule steps_skipWhitespace)
    have ok: "cursor_ok s" using st 1(2) steps_cursor_ok by blast
    have src: "src s = src s0" "src s1 = src s0"
      using steps_frame(1) [OF st] steps_frame(1) [OF steps_next, of s] by (simp_all add: s1_def)
    have prev: "offset s1 - 1 = offset s" "offset s1 = offset s + 1"
      if "0 \<le> char s" "char s < 0x80"
      using next_offset_ascii [OF ok that] by (simp_all add: s1_def)
    show ?case
    proof (cases s rule: Scan_branch)
      case ident
      have t: "tokenStart s0 = s"
        using ident by (intro tokenStart_here [OF s_def]) (auto simp: isLetter_def)
      show ?thesis
        unfolding P_def Let_def t Scan_ident [OF s_def ident]
        by (simp add: Lookup_def scanIdentifier_lit src)
    next
      case number
      have t: "tokenStart s0 = s"
        using number by (intro tokenStart_here [OF s_def]) (auto simp: isDecimal_def)
      show ?thesis
        unfolding P_def Let_def t Scan_number [OF s_def number]
        using number(2) scanNumber_kinds [of s] by (auto simp add: scanNumber_lit src)
    next
      case eof
      have t: "tokenStart s0 = s"
        using eof by (intro tokenStart_here [OF s_def]) (auto simp: eof_def)
      have "offset s = length (src s0)" "next_rune s = s"
        using Scan_at_eof [OF ok eof, of kw] Scan_eof [OF refl, of s kw] eof ok src
        by (auto simp: cursor_ok_def next_rune_def)
      then show ?thesis
        unfolding P_def Let_def t Scan_eof [OF s_def eof]
        by (simp add: slice_def)
    next
      case string
      have t: "tokenStart s0 = s"
        using string by (intro tokenStart_here [OF s_def]) auto
      show ?thesis
        unfolding P_def Let_def t Scan_string [OF s_def string]
        using prev string by (simp add: scanString_lit src flip: s1_def)
    next
      case raw
      have t: "tokenStart s0 = s"
        using raw by (intro tokenStart_here [OF s_def]) auto
      show ?thesis
        unfolding P_def Let_def t Scan_rawstring [OF s_def raw]
        using prev raw by (simp add: scanRawString_lit src flip: s1_def)
    next
      case chr
      have t: "tokenStart s0 = s"
        using chr by (intro tokenStart_here [OF s_def]) auto
      show ?thesis
        unfolding P_def Let_def t Scan_char [OF s_def chr]
        using prev chr by (simp add: scanChar_lit src flip: s1_def)
    next
      case dot
      have t: "tokenStart s0 = s"
        using dot by (intro tokenStart_here [OF s_def]) auto
      show ?thesis
        unfolding P_def Let_def t Scan_dot [OF s_def dot]
        using dot by (auto simp add: isDecimal_def)
    next
      case comment
      define s' where "s' = fst (scanComment s1)"
      have st': "steps s0 s'"
        unfolding s'_def s1_def using st steps_next steps_scanComment steps_trans by blast
      show ?thesis
      proof (cases "scanComments s'")
        case True
        have t: "tokenStart s0 = s"
          using True by (intro tokenStart_here [OF s_def]) (simp add: s'_def s1_def)
        show ?thesis
          unfolding P_def Let_def t Scan_comment [OF s_def comment]
          using True prev comment(1) by (simp add: scanComment_lit src flip: s1_def s'_def)
      next
        case False
        have nl: "\<not> isLetter (char s)"
          and nd: "\<not> (isDecimal (char s) \<or> (char s = rune CHR ''.'' \<and> isDecimal (rune (peek s))))"
          and ne: "char s \<noteq> eof" "char s \<noteq> rune CHR 0x22" "char s \<noteq> rune CHR 0x60"
            "char s \<noteq> rune CHR 0x27" "char s \<noteq> rune CHR ''.''"
          using comment(1) by (simp_all add: isLetter_def isDecimal_def eof_def)
        have "cursor_ok s'" using st' 1(2) steps_cursor_ok by blast
        then have p: "P kw s'"
          using 1(1) [OF s_def nl nd refl refl ne comment(1,2) refl prod.collapse] False
          by (simp add: s'_def s1_def)
        have e1: "tokenStart s0 = tokenStart s'"
          using False tokenStart_skip [OF s_def comment] by (simp add: s'_def s1_def)
        have e2: "Scan kw s0 = Scan kw s'"
          using False by (simp add: Scan_comment [OF s_def comment] s'_def s1_def)
        have e3: "src s' = src s0" using steps_frame(1) [OF st'] .
        from p show ?thesis unfolding P_def e1 e2 e3 .
      qed
    next
      case slash
      have t: "tokenStart s0 = s"
        using slash by (intro tokenStart_here [OF s_def]) auto
      show ?thesis
        unfolding P_def Let_def t Scan_slash [OF s_def slash]
        using slash by (simp add: isDecimal_def)
    next
      case meta
      have t: "tokenStart s0 = s"
        using meta by (intro tokenStart_here [OF s_def]) auto
      show ?thesis
        unfolding P_def Let_def t Scan_meta [OF s_def meta]
        using prev meta by (simp add: scanIdentifier_lit src flip: s1_def)
    next
      case meta_bad
      have t: "tokenStart s0 = s"
        using meta_bad by (intro tokenStart_here [OF s_def]) auto
      show ?thesis
        unfolding P_def Let_def t Scan_meta_bad [OF s_def meta_bad]
        using meta_bad by (simp add: isDecimal_def)
    next
      case other
      have t: "tokenStart s0 = s"
        using other by (intro tokenStart_here [OF s_def]) auto
      show ?thesis
        unfolding P_def Let_def t Scan_other [OF s_def other]
        using other by simp
    qed
  qed
  moreover have "snd (Scan kw (NewScanner [CHR 0x22, CHR ''a'', CHR ''b'', CHR ''c'', CHR 0x5C,
              CHR ''n'', CHR 0x22] handler sc fl))
        = (STRING, [CHR 0x22, CHR ''a'', CHR ''b'', CHR ''c'', CHR 0x5C, CHR ''n'', CHR 0x22])"
    "ErrorCount (fst (Scan kw (NewScanner [CHR 0x22, CHR ''a'', CHR ''b'', CHR ''c'', CHR 0x5C,
              CHR ''n'', CHR 0x22] handler sc fl))) = 0"
    by (simp_all add: eval_simps scanString_def scanString_loop.simps scanEscape_def)
  ultimately show ?thesis using assms unfolding P_def by blast
qed

lemma tokenStart_plain:
  assumes "char (skipWhitespace s0) \<noteq> rune CHR ''/''
    \<or> (char (next_rune (skipWhitespace s0)) \<noteq> rune CHR ''/''
        \<and> char (next_rune (skipWhitespace s0)) \<noteq> rune CHR ''*'')"
  shows "tokenStart s0 = skipWhitespace s0"
  using assms by (intro tokenStart_here [OF refl]) auto

theorem literal_is_source_span_witness:
  "cursor_ok (NewScanner ''@a'' True False [])
   \<and> fst (snd (Scan [] (NewScanner ''@a'' True False []))) = META
   \<and> snd (snd (Scan [] (NewScanner ''@a'' True False [])))
       = slice (src (NewScanner ''@a'' True False []))
           (offset (tokenStart (NewScanner ''@a'' True False [])) + 1)
           (offset (fst (Scan [] (NewScanner ''@a'' True False []))))
   \<and> cursor_ok (NewScanner '' foo'' True False [])
   \<and> fst (snd (Scan [] (NewScanner '' foo'' True False []))) = IDENT
   \<and> snd (snd (Scan [] (NewScanner '' foo'' True False [])))
       = slice (src (NewScanner '' foo'' True False []))
           (offset (tokenStart (NewScanner '' foo'' True False [])))
           (offset (fst (Scan [] (NewScanner '' foo'' True False []))))
   \<and> offset (tokenStart (NewScanner '' foo'' True False [])) = 1
   \<and> cursor_ok (NewScanner ''/a'' True False [])
   \<and> fst (snd (Scan [] (NewScanner ''/a'' True False []))) = ILLEGAL
   \<and> snd (snd (Scan [] (NewScanner ''/a'' True False []))) = []"
proof -
  let ?a = "NewScanner ''@a'' True False []"
  let ?b = "NewScanner '' foo'' True False []"
  let ?c = "NewScanner ''/a'' True False []"
  have ok: "cursor_ok ?a" "cursor_ok ?b" "cursor_ok ?c" by (rule cursor_ok_NewScanner)+
  have "char (skipWhitespace ?b) \<noteq> rune CHR ''/''"
    "char (next_rune (skipWhitespace ?c)) \<noteq> rune CHR ''/''
      \<and> char (next_rune (skipWhitespace ?c)) \<noteq> rune CHR ''*''"
    by (simp_all add: eval_simps)
  then have t: "tokenStart ?b = skipWhitespace ?b" "tokenStart ?c = skipWhitespace ?c"
    by (simp_all add: tokenStart_plain)
  have k: "fst (snd (Scan [] ?a)) = META" "fst (snd (Scan [] ?b)) = IDENT"
    "fst (snd (Scan [] ?c)) = ILLEGAL" "offset (skipWhitespace ?b) = 1"
    "\<not> isDecimal (char (skipWhitespace ?c))" "char (skipWhitespace ?c) \<noteq> rune CHR ''.''"
    by (simp_all add: eval_simps)
  note Ta = literal_is_source_span [where ?s0.0 = ?a and kw = "[]" and handler = True
      and sc = False and fl = "[]", OF ok(1), THEN conjunct1, unfolded Let_def]
  note Tb = literal_is_source_span [where ?s0.0 = ?b and kw = "[]" and handler = True
      and sc = False and fl = "[]", OF ok(2), THEN conjunct1, unfolded Let_def]
  note Tc = literal_is_source_span [where ?s0.0 = ?c and kw = "[]" and handler = True
      and sc = False and fl = "[]", OF ok(3), THEN conjunct1, unfolded Let_def]
  have A: "snd (snd (Scan [] ?a))
       = slice (src ?a) (offset (tokenStart ?a) + 1) (offset (fst (Scan [] ?a)))"
    by (rule Ta [THEN conjunct1, THEN mp, OF k(1)])
  have "fst (snd (Scan [] ?b)) \<noteq> META \<and> fst (snd (Scan [] ?b)) \<noteq> ILLEGAL"
    unfolding k(2) by simp
  then have B: "snd (snd (Scan [] ?b))
       = slice (src ?b) (offset (tokenStart ?b)) (offset (fst (Scan [] ?b)))"
    by (rule Tb [THEN conjunct2, THEN conjunct2, THEN mp])
  have nc: "\<not> (isDecimal (char (tokenStart ?c))
      \<or> (char (tokenStart ?c) = rune CHR ''.'' \<and> isDecimal (rune (peek (tokenStart ?c)))))"
    unfolding t using k(5,6) by blast
  have C: "snd (snd (Scan [] ?c)) = []"
    using Tc [THEN conjunct2, THEN conjunct1, THEN mp, OF k(3)] nc by (simp only: if_False)
  have o: "offset (tokenStart ?b) = 1" unfolding t by (rule k(4))
  show ?thesis
    by (intro conjI ok k(1,2,3) A B C o)
qed


text \<open>
  C2 as stated fails for the meta token and for the illegal tokens of punctuation: on the
  buffer \<open>@a\<close> the token starts at offset 0 and ends at offset 2, where the buffer holds
  \<open>@a\<close>, and the literal is \<open>a\<close>; on the buffer \<open>/a\<close> the illegal token of \<open>/\<close> spans the
  offsets 0 to 1 and its literal is empty.
\<close>

theorem literal_differs_from_span:
  "fst (snd (Scan [] (NewScanner ''@a'' True False []))) = META
   \<and> snd (snd (Scan [] (NewScanner ''@a'' True False []))) = ''a''
   \<and> offset (tokenStart (NewScanner ''@a'' True False [])) = 0
   \<and> offset (fst (Scan [] (NewScanner ''@a'' True False []))) = 2
   \<and> slice (src (NewScanner ''@a'' True False [])) 0 2 = ''@a''
   \<and> fst (snd (Scan [] (NewScanner ''/a'' True False []))) = ILLEGAL
   \<and> snd (snd (Scan [] (NewScanner ''/a'' True False []))) = []
   \<and> offset (tokenStart (NewScanner ''/a'' True False [])) = 0
   \<and> offset (fst (Scan [] (NewScanner ''/a'' True False []))) = 1
   \<and> slice (src (NewScanner ''/a'' True False [])) 0 1 = ''/''"
proof -
  let ?a = "NewScanner ''@a'' True False []"
  let ?c = "NewScanner ''/a'' True False []"
  have "char (skipWhitespace ?a) \<noteq> rune CHR ''/''"
    "char (next_rune (skipWhitespace ?c)) \<noteq> rune CHR ''/''
      \<and> char (next_rune (skipWhitespace ?c)) \<noteq> rune CHR ''*''"
    by (simp_all add: eval_simps)
  then have t: "tokenStart ?a = skipWhitespace ?a" "tokenStart ?c = skipWhitespace ?c"
    by (simp_all add: tokenStart_plain)
  have o: "offset (skipWhitespace ?a) = 0" "offset (skipWhitespace ?c) = 0"
    by (simp_all add: eval_simps)
  have a: "fst (snd (Scan [] ?a)) = META" "snd (snd (Scan [] ?a)) = ''a''"
    "offset (fst (Scan [] ?a)) = 2" "slice (src ?a) 0 2 = ''@a''"
    by (simp_all add: eval_simps)
  have c: "fst (snd (Scan [] ?c)) = ILLEGAL" "snd (snd (Scan [] ?c)) = []"
    "offset (fst (Scan [] ?c)) = 1" "slice (src ?c) 0 1 = ''/''"
    by (simp_all add: eval_simps)
  show ?thesis
    unfolding t by (intro conjI a c o)
qed

subsection \<open>Loops as runs of calls of next\<close>

text \<open>
  Each scanning loop leaves the state that \<open>k\<close> calls of \<open>next\<close> reach, where \<open>k\<close> is the
  number of runes on which the loop goes on: the first \<open>k\<close> runes satisfy the condition of
  the loop and the rune after them does not.
\<close>

lemma run_step:
  assumes "P t"
    and "\<exists>k. (\<forall>i<k. P ((f ^^ i) (f t))) \<and> Q ((f ^^ k) (f t))"
  shows "\<exists>k. (\<forall>i<k. P ((f ^^ i) t)) \<and> Q ((f ^^ k) t)"
proof -
  obtain k where k: "\<forall>i<k. P ((f ^^ i) (f t))" "Q ((f ^^ k) (f t))"
    using assms(2) by blast
  have "\<forall>i<Suc k. P ((f ^^ i) t)"
  proof (intro allI impI)
    fix i assume "i < Suc k"
    then show "P ((f ^^ i) t)"
      using assms(1) k(1) by (cases i) (simp_all add: funpow_swap1)
  qed
  moreover have "Q ((f ^^ Suc k) t)" using k(2) by (simp add: funpow_swap1)
  ultimately show ?thesis by blast
qed

lemma run_stop:
  assumes "Q t"
  shows "\<exists>k. (\<forall>i<k. P ((f ^^ i) t)) \<and> Q ((f ^^ k) t)"
  using assms by (intro exI [of _ 0]) simp

lemma scanDigits_run:
  "\<exists>k. (\<forall>i<k. isDecimal (char ((next_rune ^^ i) t)))
     \<and> (\<not> isDecimal (char ((next_rune ^^ k) t)) \<and> scanDigits 10 t = (next_rune ^^ k) t)"
proof (induction "10::nat" t rule: scanDigits.induct)
  case (1 t)
  show ?case
  proof (cases "isDecimal (char t)")
    case True
    then have c: "digitVal (char t) < 10 \<and> char t \<noteq> eof"
      using isDecimal_not_eof digitVal_decimal by blast
    have e: "scanDigits 10 t = scanDigits 10 (next_rune t)"
      using c by (subst scanDigits.simps) simp
    show ?thesis
      unfolding e
      by (rule run_step [where P = "\<lambda>u. isDecimal (char u)"
            and Q = "\<lambda>u. \<not> isDecimal (char u) \<and> scanDigits 10 (next_rune t) = u", OF True])
        (use 1 [OF c] in blast)
  next
    case False
    show ?thesis
      by (rule run_stop [where Q = "\<lambda>u. \<not> isDecimal (char u) \<and> scanDigits 10 t = u"])
        (simp add: False scanDigits_none)
  qed
qed

lemma scanComment_line_run:
  "\<exists>k. (\<forall>i<k. char ((next_rune ^^ i) t) \<noteq> rune CHR 0x0A \<and> 0 \<le> char ((next_rune ^^ i) t))
     \<and> ((char ((next_rune ^^ k) t) = rune CHR 0x0A \<or> char ((next_rune ^^ k) t) < 0)
        \<and> scanComment_line t = (next_rune ^^ k) t)"
proof (induction t rule: scanComment_line.induct)
  case (1 t)
  show ?case
  proof (cases "char t \<noteq> rune CHR 0x0A \<and> char t \<ge> 0")
    case True
    have e: "scanComment_line t = scanComment_line (next_rune t)"
      using True by (subst scanComment_line.simps) simp
    show ?thesis
      unfolding e
      by (rule run_step [where P = "\<lambda>u. char u \<noteq> rune CHR 0x0A \<and> 0 \<le> char u"
            and Q = "\<lambda>u. (char u = rune CHR 0x0A \<or> char u < 0)
                       \<and> scanComment_line (next_rune t) = u", OF True])
        (use 1 [OF True] in blast)
  next
    case False
    have e: "scanComment_line t = t"
      using False by (subst scanComment_line.simps) auto
    show ?thesis
      by (rule run_stop [where Q = "\<lambda>u. (char u = rune CHR 0x0A \<or> char u < 0)
                       \<and> scanComment_line t = u"])
        (use False e in auto)
  qed
qed

lemma scanComment_block_run:
  "\<exists>k. (\<forall>i<k. 0 \<le> char ((next_rune ^^ i) t)
             \<and> \<not> (char ((next_rune ^^ i) t) = rune CHR ''*''
                  \<and> char (next_rune ((next_rune ^^ i) t)) = rune CHR ''/''))
     \<and> ((char ((next_rune ^^ k) t) = rune CHR ''*''
           \<and> char (next_rune ((next_rune ^^ k) t)) = rune CHR ''/''
           \<and> scanComment_block t = (next_rune (next_rune ((next_rune ^^ k) t)), True))
        \<or> (char ((next_rune ^^ k) t) < 0
           \<and> scanComment_block t = ((next_rune ^^ k) t, False)))"
proof (induction t rule: scanComment_block.induct)
  case (1 t)
  let ?P = "\<lambda>u. 0 \<le> char u \<and> \<not> (char u = rune CHR ''*'' \<and> char (next_rune u) = rune CHR ''/'')"
  let ?Q = "\<lambda>r u. (char u = rune CHR ''*'' \<and> char (next_rune u) = rune CHR ''/''
                 \<and> r = (next_rune (next_rune u), True))
               \<or> (char u < 0 \<and> r = (u, False))"
  show ?case
  proof (cases "?P t")
    case True
    have e: "scanComment_block t = scanComment_block (next_rune t)"
      using True by (subst scanComment_block.simps) (auto simp: Let_def)
    have "\<exists>k. (\<forall>i<k. ?P ((next_rune ^^ i) (next_rune t)))
        \<and> ?Q (scanComment_block (next_rune t)) ((next_rune ^^ k) (next_rune t))"
      using 1 [OF _ refl refl] True by auto
    from run_step [where P = ?P and Q = "?Q (scanComment_block (next_rune t))", OF True this]
    show ?thesis unfolding e .
  next
    case False
    have "scanComment_block t = (t, False)" if "char t < 0"
      using that by (subst scanComment_block.simps) simp
    moreover have "scanComment_block t = (next_rune (next_rune t), True)"
      if "0 \<le> char t" "char t = rune CHR ''*''" "char (next_rune t) = rune CHR ''/''"
      using that by (subst scanComment_block.simps) (simp add: Let_def)
    ultimately have "?Q (scanComment_block t) t"
      using False by (cases "char t < 0") auto
    from run_stop [where Q = "?Q (scanComment_block t)" and P = ?P, OF this]
    show ?thesis .
  qed
qed


text \<open>
  C7: when the integer part of a number (the state that \<open>scanNumber_int\<close> leaves) is
  followed by \<open>.\<close>, the \<open>.\<close> and the run of decimal digits after it are consumed: the
  scanner is left \<open>k\<close> calls of \<open>next\<close> after the rune that follows the \<open>.\<close>, where the first
  \<open>k\<close> runes from there are decimal digits and the next one is not, \<open>1 + k\<close> bytes after
  the \<open>.\<close>. With at
  least one digit the token is a float and no \<open>float has no digits after .\<close> diagnostic is
  added; with none, exactly one such diagnostic is added and the token is the illegal kind.
  The literal is the buffer from the start of the number to the end of the run. Scanning
  \<open>3.14\<close> gives the float token \<open>3.14\<close> and no error; scanning \<open>3.\<close> gives the illegal token
  \<open>3.\<close> and that diagnostic alone.
\<close>

theorem number_fraction:
  assumes "cursor_ok s"
  shows "(let off = offset s;
              s1 = fst (scanNumber_int off s);
              s2 = next_rune s1;
              m = Msg ''float has no digits after .''
          in char s1 = rune CHR ''.'' \<longrightarrow>
               \<not> isDecimal (char (fst (scanNumber s)))
             \<and> (\<exists>k. (\<forall>i<k. isDecimal (char ((next_rune ^^ i) s2)))
                    \<and> \<not> isDecimal (char ((next_rune ^^ k) s2))
                    \<and> scanDigits 10 s2 = (next_rune ^^ k) s2
                    \<and> offset (scanDigits 10 s2) = offset s1 + 1 + k)
             \<and> (isDecimal (char s2) \<longrightarrow>
                  scanNumber s = (scanDigits 10 s2, FLOAT,
                                  slice (src s) off (offset (scanDigits 10 s2)))
                \<and> offset s1 + 1 < offset (scanDigits 10 s2)
                \<and> count_list (printed (fst (scanNumber s))) m = count_list (printed s) m)
             \<and> (\<not> isDecimal (char s2) \<longrightarrow>
                  scanNumber s = (error off m s2, ILLEGAL, slice (src s) off (offset s2))
                \<and> offset s2 = offset s1 + 1
                \<and> count_list (printed (fst (scanNumber s))) m = count_list (printed s) m + 1))
    \<and> snd (Scan kw (NewScanner ''3.14'' handler sc fl)) = (FLOAT, ''3.14'')
    \<and> ErrorCount (fst (Scan kw (NewScanner ''3.14'' handler sc fl))) = 0
    \<and> snd (Scan kw (NewScanner ''3.'' handler sc fl)) = (ILLEGAL, ''3.'')
    \<and> printed (fst (Scan kw (NewScanner ''3.'' handler sc fl)))
        = [Msg ''float has no digits after .'']
    \<and> ErrorCount (fst (Scan kw (NewScanner ''3.'' handler sc fl))) = 1"
proof -
  let ?off = "offset s"
  let ?m = "Msg ''float has no digits after .''"
  obtain s1 tok where i: "scanNumber_int ?off s = (s1, tok)"
    by (cases "scanNumber_int ?off s")
  let ?s2 = "next_rune s1"
  let ?s3 = "scanDigits 10 ?s2"
  have st1: "steps s s1" using steps_scanNumber_int [of s ?off] i by simp
  have ok1: "cursor_ok s1" using st1 assms steps_cursor_ok by blast
  have st2: "steps s ?s2" using st1 steps_next steps_trans by blast
  have ok2: "cursor_ok ?s2" using st2 assms steps_cursor_ok by blast
  have st3: "steps s ?s3" using st2 steps_scanDigits steps_trans by blast
  have mc: "?m \<notin> cursor_messages" by (simp add: cursor_messages_def)
  have c1: "count_list (printed s1) ?m = count_list (printed s) ?m"
    using count_scanNumber_int [of ?off s] i by simp
  have c2: "count_list (printed ?s2) ?m = count_list (printed s) ?m"
    using c1 count_next [OF mc] by simp
  have c3: "count_list (printed ?s3) ?m = count_list (printed s) ?m"
    using c2 count_scanDigits [OF mc] by simp
  have gen: "\<not> isDecimal (char (fst (scanNumber s)))
       \<and> (\<exists>k. (\<forall>i<k. isDecimal (char ((next_rune ^^ i) ?s2)))
              \<and> \<not> isDecimal (char ((next_rune ^^ k) ?s2))
              \<and> scanDigits 10 ?s2 = (next_rune ^^ k) ?s2
              \<and> offset (scanDigits 10 ?s2) = offset s1 + 1 + k)
       \<and> (isDecimal (char ?s2) \<longrightarrow>
            scanNumber s = (?s3, FLOAT, slice (src s) ?off (offset ?s3))
          \<and> offset s1 + 1 < offset ?s3
          \<and> count_list (printed (fst (scanNumber s))) ?m = count_list (printed s) ?m)
       \<and> (\<not> isDecimal (char ?s2) \<longrightarrow>
            scanNumber s = (error ?off ?m ?s2, ILLEGAL, slice (src s) ?off (offset ?s2))
          \<and> offset ?s2 = offset s1 + 1
          \<and> count_list (printed (fst (scanNumber s))) ?m = count_list (printed s) ?m + 1)"
    if dot: "char s1 = rune CHR ''.''"
  proof -
    have o2: "offset ?s2 = offset s1 + 1"
      using dot by (intro next_offset_ascii [OF ok1]) simp_all
    have nd: "\<not> isDecimal (char ?s3)" by (rule scanDigits_stops)
    obtain k where k: "\<forall>i<k. isDecimal (char ((next_rune ^^ i) ?s2))"
      "\<not> isDecimal (char ((next_rune ^^ k) ?s2))" "?s3 = (next_rune ^^ k) ?s2"
      using scanDigits_run [of ?s2] by blast
    have "\<forall>i<k. 0 \<le> char ((next_rune ^^ i) ?s2) \<and> char ((next_rune ^^ i) ?s2) < 0x80"
      using k(1) by (auto simp: isDecimal_def)
    then have "offset ((next_rune ^^ k) ?s2) = offset ?s2 + k"
      by (rule offset_funpow_ascii [OF ok2])
    then have run: "\<exists>k. (\<forall>i<k. isDecimal (char ((next_rune ^^ i) ?s2)))
              \<and> \<not> isDecimal (char ((next_rune ^^ k) ?s2))
              \<and> scanDigits 10 ?s2 = (next_rune ^^ k) ?s2
              \<and> offset (scanDigits 10 ?s2) = offset s1 + 1 + k"
      using k o2 by (intro exI [of _ k]) simp
    show ?thesis
    proof (cases "isDecimal (char ?s2)")
      case True
      have lt: "offset s1 + 1 < offset ?s3"
        using scanDigits_some [OF ok2 True] o2 by simp
      then have "scanNumber_frac ?off tok s1 = (?s3, FLOAT)"
        using dot by (simp add: scanNumber_frac_def Let_def)
      then have "scanNumber s = (?s3, FLOAT, slice (src s) ?off (offset ?s3))"
        using i steps_frame(1) [OF st3] by (simp add: scanNumber_def)
      then show ?thesis using True lt c3 nd run by simp
    next
      case False
      have e: "?s3 = ?s2" by (rule scanDigits_none [OF False])
      then have "scanNumber_frac ?off tok s1 = (error ?off ?m ?s2, ILLEGAL)"
        using dot o2 by (simp add: scanNumber_frac_def Let_def)
      then have "scanNumber s = (error ?off ?m ?s2, ILLEGAL, slice (src s) ?off (offset ?s2))"
        using i steps_frame(1) [OF st2] by (simp add: scanNumber_def error_eq)
      then show ?thesis using False o2 c2 nd e run by (simp add: error_eq)
    qed
  qed
  have ex: "snd (Scan kw (NewScanner ''3.14'' handler sc fl)) = (FLOAT, ''3.14'')"
    "ErrorCount (fst (Scan kw (NewScanner ''3.14'' handler sc fl))) = 0"
    "snd (Scan kw (NewScanner ''3.'' handler sc fl)) = (ILLEGAL, ''3.'')"
    "printed (fst (Scan kw (NewScanner ''3.'' handler sc fl)))
        = [Msg ''float has no digits after .'']"
    "ErrorCount (fst (Scan kw (NewScanner ''3.'' handler sc fl))) = 1"
    by (simp_all add: eval_simps scanNumber_def scanNumber_int_def scanNumber_frac_def
        scanDigits.simps digitVal_def lower_def)
  show ?thesis
    unfolding Let_def i fst_conv using gen ex by blast
qed

theorem number_fraction_witness:
  "cursor_ok (NewScanner ''3.14'' True False [])
   \<and> char (fst (scanNumber_int 0 (NewScanner ''3.14'' True False []))) = rune CHR ''.''
   \<and> fst (snd (scanNumber (NewScanner ''3.14'' True False []))) = FLOAT
   \<and> offset (fst (scanNumber (NewScanner ''3.14'' True False []))) = 4
   \<and> cursor_ok (NewScanner ''3.'' True False [])
   \<and> char (fst (scanNumber_int 0 (NewScanner ''3.'' True False []))) = rune CHR ''.''
   \<and> fst (snd (scanNumber (NewScanner ''3.'' True False []))) = ILLEGAL
   \<and> count_list (printed (fst (scanNumber (NewScanner ''3.'' True False []))))
        (Msg ''float has no digits after .'') = 1"
proof -
  let ?s = "NewScanner ''3.14'' True False []"
  let ?t = "NewScanner ''3.'' True False []"
  have ok: "cursor_ok ?s" "cursor_ok ?t" by (rule cursor_ok_NewScanner)+
  have e: "offset ?s = 0" "char (fst (scanNumber_int 0 ?s)) = rune CHR ''.''"
    "isDecimal (char (next_rune (fst (scanNumber_int 0 ?s))))"
    "offset (scanDigits 10 (next_rune (fst (scanNumber_int 0 ?s)))) = 4"
    "offset ?t = 0" "char (fst (scanNumber_int 0 ?t)) = rune CHR ''.''"
    "\<not> isDecimal (char (next_rune (fst (scanNumber_int 0 ?t))))"
    "printed ?t = []"
    by (simp_all add: eval_simps scanNumber_int_def scanDigits.simps digitVal_def lower_def)
  show ?thesis
    using number_fraction [where s = ?s and kw = "[]" and handler = True and sc = False
        and fl = "[]", OF ok(1)]
      number_fraction [where s = ?t and kw = "[]" and handler = True and sc = False
        and fl = "[]", OF ok(2)] ok e
    by (auto simp add: Let_def)
qed

lemma unicode_escape_digits:
  assumes "char s = rune CHR ''u'' \<and> n = 4 \<or> char s = rune CHR ''U'' \<and> n = 8"
    and "\<forall>d\<in>set (digits_ahead n (next_rune s)). d < 16"
  shows "(let v = digits_value 16 (digits_ahead n (next_rune s));
              s' = (next_rune ^^ Suc n) s;
              bad = (MaxRune < v \<or> (0xD800 \<le> v \<and> v < 0xE000));
              m = Msg ''escape sequence is invalid Unicode code point''
          in scanEscape (rune CHR 0x22) s = (if bad then (error (offset s) m s', False)
                                             else (s', True))
             \<and> count_list (printed (fst (scanEscape (rune CHR 0x22) s))) m
                 = count_list (printed s) m + (if bad then 1 else 0)
             \<and> (cursor_ok s \<longrightarrow> offset (fst (scanEscape (rune CHR 0x22) s)) = offset s + n + 1))"
proof -
  define ds where "ds = digits_ahead n (next_rune s)"
  define v where "v = digits_value 16 ds"
  define s' where "s' = (next_rune ^^ Suc n) s"
  define bad where "bad \<longleftrightarrow> MaxRune < v \<or> (0xD800 \<le> v \<and> v < 0xE000)"
  define m where "m = Msg ''escape sequence is invalid Unicode code point''"
  have n: "n = 4 \<or> n = 8" using assms(1) by blast
  have acc: "foldl (\<lambda>v d. (v * 16 + d) mod 2 ^ 32) 0 ds = v"
    unfolding v_def using assms(2) n
    by (intro accum_digits_value) (auto simp: ds_def length_digits_ahead)
  have loop: "scanEscape_digits (offset s) n 16 MaxRune 0 (next_rune s)
      = scanEscape_digits (offset s) 0 16 MaxRune v s'"
    using scanEscape_digits_all [OF assms(2), of "offset s" MaxRune 0] acc
    by (simp add: ds_def s'_def funpow_swap1)
  have "scanEscape (rune CHR 0x22) s = scanEscape_digits (offset s) n 16 MaxRune 0 (next_rune s)"
    using assms(1) by (auto simp: scanEscape_def Let_def)
  then have E: "scanEscape (rune CHR 0x22) s
      = (if bad then (error (offset s) m s', False) else (s', True))"
    by (simp add: loop bad_def m_def)
  have mc: "m \<notin> cursor_messages" by (simp add: m_def cursor_messages_def)
  have "count_list (printed s') m = count_list (printed s) m"
    unfolding s'_def by (rule count_funpow [OF mc])
  then have C: "count_list (printed (fst (scanEscape (rune CHR 0x22) s))) m
      = count_list (printed s) m + (if bad then 1 else 0)"
    using E by (simp add: error_eq)
  have O: "offset (fst (scanEscape (rune CHR 0x22) s)) = offset s + n + 1" if ok: "cursor_ok s"
  proof -
    have "0 \<le> char ((next_rune ^^ i) s) \<and> char ((next_rune ^^ i) s) < 0x80" if "i < Suc n" for i
    proof (cases i)
      case 0
      then show ?thesis using assms(1) by auto
    next
      case (Suc j)
      then have "j < n" using that by simp
      then have "digits_ahead n (next_rune s) ! j < 16"
        using assms(2) by (simp add: length_digits_ahead)
      then show ?thesis
        using digitVal_ascii \<open>j < n\<close> unfolding Suc by (simp add: digits_ahead_nth)
    qed
    then have "offset s' = offset s + Suc n"
      unfolding s'_def by (intro offset_funpow_ascii [OF ok]) blast
    then show ?thesis using E by (simp add: error_eq)
  qed
  show ?thesis
    using E C O unfolding Let_def ds_def v_def s'_def bad_def m_def by blast
qed

lemma unicode_escape_short:
  assumes "char s = rune CHR ''u'' \<and> n = 4 \<or> char s = rune CHR ''U'' \<and> n = 8"
    and "k < n" "\<forall>d\<in>set (digits_ahead k (next_rune s)). d < 16"
    and "16 \<le> digitVal (char ((next_rune ^^ Suc k) s))"
  shows "scanEscape (rune CHR 0x22) s
      = (error (offset ((next_rune ^^ Suc k) s)) (escape_digit_msg (char ((next_rune ^^ Suc k) s)))
           ((next_rune ^^ Suc k) s), False)"
    and "count_list (printed (fst (scanEscape (rune CHR 0x22) s)))
           (Msg ''escape sequence is invalid Unicode code point'')
         = count_list (printed s) (Msg ''escape sequence is invalid Unicode code point'')"
proof -
  let ?m = "Msg ''escape sequence is invalid Unicode code point''"
  let ?sk = "(next_rune ^^ Suc k) s"
  have e: "(next_rune ^^ k) (next_rune s) = ?sk" by (simp add: funpow_swap1)
  have "scanEscape (rune CHR 0x22) s = scanEscape_digits (offset s) n 16 MaxRune 0 (next_rune s)"
    using assms(1) by (auto simp: scanEscape_def Let_def)
  also have "\<dots> = (error (offset ?sk) (escape_digit_msg (char ?sk)) ?sk, False)"
    using scanEscape_digits_stop [OF assms(2,3), of "offset s" MaxRune 0] assms(4)
    unfolding e by simp
  finally show E: "scanEscape (rune CHR 0x22) s
      = (error (offset ?sk) (escape_digit_msg (char ?sk)) ?sk, False)" .
  have mc: "?m \<notin> cursor_messages" by (simp add: cursor_messages_def)
  have "escape_digit_msg (char ?sk) \<noteq> ?m" by (simp add: escape_digit_msg_def)
  then have "count_list (printed (error (offset ?sk) (escape_digit_msg (char ?sk)) ?sk)) ?m
      = count_list (printed s) ?m"
    using count_funpow [OF mc, of "Suc k" s] by (simp add: error_eq)
  then show "count_list (printed (fst (scanEscape (rune CHR 0x22) s))) ?m
      = count_list (printed s) ?m"
    unfolding E by simp
qed

text \<open>
  C6: \<open>\u\<close> takes exactly four hex digits and \<open>\U\<close> exactly eight. When the \<open>n\<close> runes after
  the letter are all hex digits, exactly the letter and those digits are consumed (the state
  is \<open>n + 1\<close> calls of \<open>next\<close> on, and \<open>offset\<close> has moved by \<open>n + 1\<close> bytes); with \<open>v\<close> the
  value of the digits, the escape is rejected, with exactly one diagnostic \<open>escape sequence
  is invalid Unicode code point\<close>, when \<open>v\<close> is above the maximum code point or in the
  surrogate range from 0xD800 up to but not including 0xE000, and accepted without that
  diagnostic otherwise. When only \<open>k < n\<close> hex digits follow the letter, the escape is
  rejected at the rune after them, which is not consumed, with the diagnostic for that rune
  and without the code point diagnostic. Scanning the string \<open>"\uD800"\<close> gives a string
  token and exactly the one code point diagnostic; scanning \<open>"\u12"\<close> gives a string token
  and the diagnostic for the closing quote met where the third digit should be.
\<close>

theorem unicode_escape:
  assumes "char s = rune CHR ''u'' \<and> n = 4 \<or> char s = rune CHR ''U'' \<and> n = 8"
  shows "((\<forall>d\<in>set (digits_ahead n (next_rune s)). d < 16) \<longrightarrow>
          (let v = digits_value 16 (digits_ahead n (next_rune s));
               s' = (next_rune ^^ Suc n) s;
               bad = (MaxRune < v \<or> (0xD800 \<le> v \<and> v < 0xE000));
               m = Msg ''escape sequence is invalid Unicode code point''
           in scanEscape (rune CHR 0x22) s = (if bad then (error (offset s) m s', False)
                                              else (s', True))
              \<and> count_list (printed (fst (scanEscape (rune CHR 0x22) s))) m
                  = count_list (printed s) m + (if bad then 1 else 0)
              \<and> (cursor_ok s \<longrightarrow>
                    offset (fst (scanEscape (rune CHR 0x22) s)) = offset s + n + 1)))
    \<and> (\<forall>k<n. (\<forall>d\<in>set (digits_ahead k (next_rune s)). d < 16)
               \<and> 16 \<le> digitVal (char ((next_rune ^^ Suc k) s)) \<longrightarrow>
          scanEscape (rune CHR 0x22) s
            = (error (offset ((next_rune ^^ Suc k) s))
                 (escape_digit_msg (char ((next_rune ^^ Suc k) s))) ((next_rune ^^ Suc k) s), False)
          \<and> count_list (printed (fst (scanEscape (rune CHR 0x22) s)))
                (Msg ''escape sequence is invalid Unicode code point'')
              = count_list (printed s) (Msg ''escape sequence is invalid Unicode code point''))
    \<and> snd (Scan kw (NewScanner [CHR 0x22, CHR 0x5C, CHR ''u'', CHR ''D'', CHR ''8'', CHR ''0'',
              CHR ''0'', CHR 0x22] handler sc fl))
        = (STRING, [CHR 0x22, CHR 0x5C, CHR ''u'', CHR ''D'', CHR ''8'', CHR ''0'', CHR ''0'',
             CHR 0x22])
    \<and> printed (fst (Scan kw (NewScanner [CHR 0x22, CHR 0x5C, CHR ''u'', CHR ''D'', CHR ''8'',
              CHR ''0'', CHR ''0'', CHR 0x22] handler sc fl)))
        = [Msg ''escape sequence is invalid Unicode code point'']
    \<and> ErrorCount (fst (Scan kw (NewScanner [CHR 0x22, CHR 0x5C, CHR ''u'', CHR ''D'', CHR ''8'',
              CHR ''0'', CHR ''0'', CHR 0x22] handler sc fl))) = 1
    \<and> snd (Scan kw (NewScanner [CHR 0x22, CHR 0x5C, CHR ''u'', CHR ''1'', CHR ''2'', CHR 0x22]
              handler sc fl))
        = (STRING, [CHR 0x22, CHR 0x5C, CHR ''u'', CHR ''1'', CHR ''2'', CHR 0x22])
    \<and> printed (fst (Scan kw (NewScanner [CHR 0x22, CHR 0x5C, CHR ''u'', CHR ''1'', CHR ''2'',
              CHR 0x22] handler sc fl)))
        = [IllegalCharInEscape (rune CHR 0x22)]"
proof (intro conjI impI allI)
  assume "\<forall>d\<in>set (digits_ahead n (next_rune s)). d < 16"
  from unicode_escape_digits [OF assms this]
  show "let v = digits_value 16 (digits_ahead n (next_rune s));
               s' = (next_rune ^^ Suc n) s;
               bad = (MaxRune < v \<or> (0xD800 \<le> v \<and> v < 0xE000));
               m = Msg ''escape sequence is invalid Unicode code point''
           in scanEscape (rune CHR 0x22) s = (if bad then (error (offset s) m s', False)
                                              else (s', True))
              \<and> count_list (printed (fst (scanEscape (rune CHR 0x22) s))) m
                  = count_list (printed s) m + (if bad then 1 else 0)
              \<and> (cursor_ok s \<longrightarrow>
                    offset (fst (scanEscape (rune CHR 0x22) s)) = offset s + n + 1)" .
next
  fix k
  assume k: "k < n" and h: "(\<forall>d\<in>set (digits_ahead k (next_rune s)). d < 16)
               \<and> 16 \<le> digitVal (char ((next_rune ^^ Suc k) s))"
  show "scanEscape (rune CHR 0x22) s
            = (error (offset ((next_rune ^^ Suc k) s))
                 (escape_digit_msg (char ((next_rune ^^ Suc k) s))) ((next_rune ^^ Suc k) s), False)"
    using unicode_escape_short(1) [OF assms k] h by blast
  show "count_list (printed (fst (scanEscape (rune CHR 0x22) s)))
                (Msg ''escape sequence is invalid Unicode code point'')
              = count_list (printed s) (Msg ''escape sequence is invalid Unicode code point'')"
    using unicode_escape_short(2) [OF assms k] h by blast
qed (simp_all add: eval_simps scanString_def scanString_loop.simps scanEscape_def
        scanEscape_digits_numeral digitVal_def lower_def MaxRune_def escape_digit_msg_def)

theorem unicode_escape_witness:
  "char (NewScanner ''uD800'' True False []) = rune CHR ''u''
   \<and> digits_ahead 4 (next_rune (NewScanner ''uD800'' True False [])) = [13, 8, 0, 0]
   \<and> digits_value 16 (digits_ahead 4 (next_rune (NewScanner ''uD800'' True False []))) = 0xD800
   \<and> snd (scanEscape (rune CHR 0x22) (NewScanner ''uD800'' True False [])) = False
   \<and> count_list (printed (fst (scanEscape (rune CHR 0x22) (NewScanner ''uD800'' True False []))))
         (Msg ''escape sequence is invalid Unicode code point'') = 1
   \<and> offset (fst (scanEscape (rune CHR 0x22) (NewScanner ''uD800'' True False []))) = 5
   \<and> char (NewScanner ''u12z'' True False []) = rune CHR ''u''
   \<and> digits_ahead 2 (next_rune (NewScanner ''u12z'' True False [])) = [1, 2]
   \<and> digitVal (char ((next_rune ^^ 3) (NewScanner ''u12z'' True False []))) = 16
   \<and> scanEscape (rune CHR 0x22) (NewScanner ''u12z'' True False [])
       = (error 3 (IllegalCharInEscape (rune CHR ''z''))
            ((next_rune ^^ 3) (NewScanner ''u12z'' True False [])), False)"
proof -
  let ?s = "NewScanner ''uD800'' True False []"
  let ?t = "NewScanner ''u12z'' True False []"
  have c: "char ?s = rune CHR ''u''" "offset ?s = 0" "printed ?s = []"
    "char ?t = rune CHR ''u''"
    by (simp_all add: eval_simps)
  have d: "digits_ahead 4 (next_rune ?s) = [13, 8, 0, 0]"
    "digits_ahead 2 (next_rune ?t) = [1, 2]"
    by (simp_all add: digits_ahead_numeral digits_ahead_Suc digits_ahead_0 eval_simps digitVal_def
        lower_def)
  have h: "\<forall>d\<in>set (digits_ahead 4 (next_rune ?s)). d < 16"
    "\<forall>d\<in>set (digits_ahead 2 (next_rune ?t)). d < 16" unfolding d by simp_all
  have v: "digits_value 16 (digits_ahead 4 (next_rune ?s)) = 0xD800"
    unfolding d by (simp add: digits_value_def)
  have ok: "cursor_ok ?s" by (rule cursor_ok_NewScanner)
  have z: "char ((next_rune ^^ Suc 2) ?t) = rune CHR ''z''" "offset ((next_rune ^^ Suc 2) ?t) = 3"
    by (simp_all add: eval_simps numeral_2_eq_2)
  have z16: "16 \<le> digitVal (char ((next_rune ^^ Suc 2) ?t))"
    unfolding z by (simp add: digitVal_def lower_def)
  have z16': "digitVal (char ((next_rune ^^ 3) ?t)) = 16"
    using z(1) by (simp add: numeral_3_eq_3 numeral_2_eq_2 digitVal_def lower_def)
  note T = unicode_escape [where s = ?s and n = 4 and kw = "[]" and handler = True
        and sc = False and fl = "[]", THEN conjunct1, THEN mp, OF _ h(1), unfolded Let_def v]
  note U = unicode_escape [where s = ?t and n = 4 and kw = "[]" and handler = True
        and sc = False and fl = "[]", THEN conjunct2, THEN conjunct1, rule_format, of 2,
        THEN conjunct1]
  have A: "snd (scanEscape (rune CHR 0x22) ?s) = False"
    "count_list (printed (fst (scanEscape (rune CHR 0x22) ?s)))
         (Msg ''escape sequence is invalid Unicode code point'') = 1"
    "offset (fst (scanEscape (rune CHR 0x22) ?s)) = 5"
    using T c ok by (auto simp add: MaxRune_def)
  have "scanEscape (rune CHR 0x22) ?t
       = (error (offset ((next_rune ^^ Suc 2) ?t))
            (escape_digit_msg (char ((next_rune ^^ Suc 2) ?t))) ((next_rune ^^ Suc 2) ?t), False)"
    using U c(4) h(2) z16 by simp
  then have B: "scanEscape (rune CHR 0x22) ?t
       = (error 3 (IllegalCharInEscape (rune CHR ''z'')) ((next_rune ^^ 3) ?t), False)"
    unfolding z by (simp add: escape_digit_msg_def numeral_3_eq_3 numeral_2_eq_2)
  show ?thesis
    by (intro conjI c(1) c(4) d v A B z16')
qed




subsection \<open>Comments\<close>

text \<open>
  What \<open>Scan\<close> does with a comment, in terms of the state \<open>e\<close> in which \<open>scanComment\<close>
  leaves the scanner: with comments enabled the comment is the token, and its literal is
  the buffer from the \<open>/\<close> to the offset of \<open>e\<close>; with comments suppressed the result is
  that of \<open>Scan\<close> from \<open>e\<close>, which is not a comment.
\<close>

lemma Scan_comment_end:
  assumes "s = skipWhitespace s0" "cursor_ok s0" "char s = rune CHR ''/''"
    "char (next_rune s) = rune CHR ''/'' \<or> char (next_rune s) = rune CHR ''*''"
    "fst (scanComment (next_rune s)) = e"
  shows "if scanComments s0
         then Scan kw s0 = (e, COMMENT, slice (src s0) (offset s) (offset e))
         else Scan kw s0 = Scan kw e \<and> fst (snd (Scan kw e)) \<noteq> COMMENT"
proof -
  have oks: "cursor_ok s"
    using steps_cursor_ok [OF steps_skipWhitespace assms(2)] by (simp add: assms(1))
  have o: "offset (next_rune s) - 1 = offset s"
    using next_offset_ascii [OF oks] assms(3) by simp
  have "steps s0 s" unfolding assms(1) by (rule steps_skipWhitespace)
  then have "steps s0 (next_rune s)" using steps_next steps_trans by blast
  then have "steps s0 (fst (scanComment (next_rune s)))"
    using steps_scanComment steps_trans by blast
  then have st: "steps s0 e" unfolding assms(5) .
  have sc: "scanComments e = scanComments s0" and srce: "src e = src s0"
    using steps_frame(1,2) [OF st] by simp_all
  have "snd (scanComment t) = slice (src (fst (scanComment t))) (offset t - 1)
      (offset (fst (scanComment t)))" for t
    by (simp add: scanComment_def Let_def)
  from this [of "next_rune s"]
  have lit: "snd (scanComment (next_rune s)) = slice (src s0) (offset s) (offset e)"
    unfolding assms(5) srce o .
  have S: "Scan kw s0 = (if \<not> scanComments e then Scan kw e
      else (e, COMMENT, slice (src s0) (offset s) (offset e)))"
    using Scan_comment [OF assms(1,3,4), of kw] unfolding assms(5) lit .
  show ?thesis
  proof (cases "scanComments s0")
    case True
    then show ?thesis using S sc by simp
  next
    case False
    then have "fst (snd (Scan kw e)) \<noteq> COMMENT" using Scan_kinds [of kw e] sc by blast
    then show ?thesis using False S sc by simp
  qed
qed

text \<open>
  C8: with comments suppressed \<open>Scan\<close> discards a comment and returns the token after it.
  On a scanner that satisfies the invariant of the cursor, let \<open>s\<close> be the state after the
  white space and \<open>s2\<close> the state behind the two runes that open the comment.
  A comment that opens with two slashes runs over \<open>k\<close> runes other than a newline, up to the
  first newline or the end of the input; a comment that opens with \<open>/*\<close> runs over \<open>k\<close>
  runes none of which is a \<open>*\<close> followed by \<open>/\<close>, up to and including the first \<open>*/\<close>, or up
  to the end of the input, and then \<open>comment not terminated\<close> is reported at the offset
  of the \<open>/\<close>. With \<open>e\<close> the state at that end, a scanner with comments suppressed returns
  what \<open>Scan\<close> returns from \<open>e\<close>, which is not a comment; a scanner with comments enabled
  returns the comment token, with the buffer from the \<open>/\<close> to the offset of \<open>e\<close> as literal,
  and stays in \<open>e\<close>.
  So a scanner constructed with comments suppressed never returns a comment token,
  whatever the buffer and however many calls were made. On the buffer \<open>// x\<close>, newline,
  \<open>foo\<close> (with \<open>foo\<close> not a keyword) the first call returns the identifier \<open>foo\<close> and the
  second the end of input, with no error counted; with comments enabled the first call
  returns the comment \<open>// x\<close>, the second the identifier \<open>foo\<close> and the third the end of
  input. On the buffer \<open>/* x */foo\<close> the first call returns \<open>foo\<close> with comments suppressed
  and the comment \<open>/* x */\<close> with comments enabled; on \<open>/* x\<close>, with comments suppressed, it
  returns the end of input and one error is counted.
\<close>

theorem comments_suppressed:
  assumes "cursor_ok s0" and "''foo'' \<notin> set kw"
  shows
    "(let s = skipWhitespace s0; s2 = next_rune (next_rune s) in
       (char s = rune CHR ''/'' \<and> char (next_rune s) = rune CHR ''/'' \<longrightarrow>
          (\<exists>k. (\<forall>i<k. char ((next_rune ^^ i) s2) \<noteq> rune CHR 0x0A
                      \<and> 0 \<le> char ((next_rune ^^ i) s2))
             \<and> (let e = (next_rune ^^ k) s2 in
                  (char e = rune CHR 0x0A \<or> char e < 0)
                  \<and> (if scanComments s0
                     then Scan kw s0 = (e, COMMENT, slice (src s0) (offset s) (offset e))
                     else Scan kw s0 = Scan kw e \<and> fst (snd (Scan kw e)) \<noteq> COMMENT))))
       \<and> (char s = rune CHR ''/'' \<and> char (next_rune s) = rune CHR ''*'' \<longrightarrow>
          (\<exists>k. (\<forall>i<k. 0 \<le> char ((next_rune ^^ i) s2)
                      \<and> \<not> (char ((next_rune ^^ i) s2) = rune CHR ''*''
                           \<and> char ((next_rune ^^ Suc i) s2) = rune CHR ''/''))
             \<and> (let q = (next_rune ^^ k) s2;
                     e = (if char q < 0
                          then error (offset s) (Msg ''comment not terminated'') q
                          else next_rune (next_rune q)) in
                  (char q < 0 \<or> char q = rune CHR ''*'' \<and> char (next_rune q) = rune CHR ''/'')
                  \<and> (if scanComments s0
                     then Scan kw s0 = (e, COMMENT, slice (src s0) (offset s) (offset e))
                     else Scan kw s0 = Scan kw e \<and> fst (snd (Scan kw e)) \<noteq> COMMENT)))))
    \<and> fst (snd (Scan kw (ScanN kw n (NewScanner source handler False fl)))) \<noteq> COMMENT
    \<and> snd (Scan kw (NewScanner comment_then_foo handler False fl)) = (IDENT, ''foo'')
    \<and> snd (Scan kw (ScanN kw 1 (NewScanner comment_then_foo handler False fl))) = (EOF, [])
    \<and> ErrorCount (ScanN kw 2 (NewScanner comment_then_foo handler False fl)) = 0
    \<and> snd (Scan kw (NewScanner comment_then_foo handler True fl)) = (COMMENT, ''// x'')
    \<and> snd (Scan kw (ScanN kw 1 (NewScanner comment_then_foo handler True fl)))
        = (IDENT, ''foo'')
    \<and> snd (Scan kw (ScanN kw 2 (NewScanner comment_then_foo handler True fl))) = (EOF, [])
    \<and> ErrorCount (ScanN kw 3 (NewScanner comment_then_foo handler True fl)) = 0
    \<and> snd (Scan kw (NewScanner ''/* x */foo'' handler False fl)) = (IDENT, ''foo'')
    \<and> ErrorCount (fst (Scan kw (NewScanner ''/* x */foo'' handler False fl))) = 0
    \<and> snd (Scan kw (NewScanner ''/* x */foo'' handler True fl)) = (COMMENT, ''/* x */'')
    \<and> snd (Scan kw (NewScanner ''/* x'' handler False fl)) = (EOF, [])
    \<and> printed (fst (Scan kw (NewScanner ''/* x'' handler False fl)))
        = [Msg ''comment not terminated'']
    \<and> ErrorCount (fst (Scan kw (NewScanner ''/* x'' handler False fl))) = 1"
proof (intro conjI)
  define s where "s = skipWhitespace s0"
  define s2 where "s2 = next_rune (next_rune s)"
  have line: "\<exists>k. (\<forall>i<k. char ((next_rune ^^ i) s2) \<noteq> rune CHR 0x0A
                      \<and> 0 \<le> char ((next_rune ^^ i) s2))
             \<and> (let e = (next_rune ^^ k) s2 in
                  (char e = rune CHR 0x0A \<or> char e < 0)
                  \<and> (if scanComments s0
                     then Scan kw s0 = (e, COMMENT, slice (src s0) (offset s) (offset e))
                     else Scan kw s0 = Scan kw e \<and> fst (snd (Scan kw e)) \<noteq> COMMENT))"
    if h: "char s = rune CHR ''/''" "char (next_rune s) = rune CHR ''/''"
  proof -
    obtain k where k: "\<forall>i<k. char ((next_rune ^^ i) s2) \<noteq> rune CHR 0x0A
          \<and> 0 \<le> char ((next_rune ^^ i) s2)"
      and r: "char ((next_rune ^^ k) s2) = rune CHR 0x0A \<or> char ((next_rune ^^ k) s2) < 0"
      and l: "scanComment_line s2 = (next_rune ^^ k) s2"
      using scanComment_line_run [of s2] by blast
    have f: "fst (scanComment (next_rune s)) = (next_rune ^^ k) s2"
      using h(2) l by (simp add: scanComment_def Let_def s2_def)
    have "if scanComments s0
          then Scan kw s0 = ((next_rune ^^ k) s2, COMMENT,
                  slice (src s0) (offset s) (offset ((next_rune ^^ k) s2)))
          else Scan kw s0 = Scan kw ((next_rune ^^ k) s2)
               \<and> fst (snd (Scan kw ((next_rune ^^ k) s2))) \<noteq> COMMENT"
      using h(2) by (intro Scan_comment_end [OF s_def assms(1) h(1) _ f]) simp
    then show ?thesis using k r unfolding Let_def by (intro exI [of _ k]) blast
  qed
  have block: "\<exists>k. (\<forall>i<k. 0 \<le> char ((next_rune ^^ i) s2)
                      \<and> \<not> (char ((next_rune ^^ i) s2) = rune CHR ''*''
                           \<and> char ((next_rune ^^ Suc i) s2) = rune CHR ''/''))
             \<and> (let q = (next_rune ^^ k) s2;
                     e = (if char q < 0
                          then error (offset s) (Msg ''comment not terminated'') q
                          else next_rune (next_rune q)) in
                  (char q < 0 \<or> char q = rune CHR ''*'' \<and> char (next_rune q) = rune CHR ''/'')
                  \<and> (if scanComments s0
                     then Scan kw s0 = (e, COMMENT, slice (src s0) (offset s) (offset e))
                     else Scan kw s0 = Scan kw e \<and> fst (snd (Scan kw e)) \<noteq> COMMENT))"
    if h: "char s = rune CHR ''/''" "char (next_rune s) = rune CHR ''*''"
  proof -
    have oks: "cursor_ok s"
      using steps_cursor_ok [OF steps_skipWhitespace assms(1)] by (simp add: s_def)
    have o: "offset (next_rune s) - 1 = offset s"
      using next_offset_ascii [OF oks] h(1) by simp
    obtain k where k: "\<forall>i<k. 0 \<le> char ((next_rune ^^ i) s2)
             \<and> \<not> (char ((next_rune ^^ i) s2) = rune CHR ''*''
                  \<and> char (next_rune ((next_rune ^^ i) s2)) = rune CHR ''/'')"
      and r: "(char ((next_rune ^^ k) s2) = rune CHR ''*''
           \<and> char (next_rune ((next_rune ^^ k) s2)) = rune CHR ''/''
           \<and> scanComment_block s2 = (next_rune (next_rune ((next_rune ^^ k) s2)), True))
        \<or> (char ((next_rune ^^ k) s2) < 0
           \<and> scanComment_block s2 = ((next_rune ^^ k) s2, False))"
      using scanComment_block_run [of s2] by blast
    define q where "q = (next_rune ^^ k) s2"
    define e where "e = (if char q < 0
                          then error (offset s) (Msg ''comment not terminated'') q
                          else next_rune (next_rune q))"
    have c: "char q < 0 \<or> char q = rune CHR ''*'' \<and> char (next_rune q) = rune CHR ''/''"
      using r unfolding q_def by blast
    have ns: "char (next_rune s) \<noteq> rune CHR ''/''" using h(2) by simp
    have f: "fst (scanComment (next_rune s)) = e"
    proof (cases "char q < 0")
      case True
      then have "scanComment_block s2 = (q, False)" using r unfolding q_def by auto
      then show ?thesis
        using True ns o by (simp add: scanComment_def Let_def e_def flip: s2_def)
    next
      case False
      then have "scanComment_block s2 = (next_rune (next_rune q), True)"
        using r unfolding q_def by auto
      then show ?thesis
        using False ns by (simp add: scanComment_def Let_def e_def flip: s2_def)
    qed
    have "if scanComments s0
          then Scan kw s0 = (e, COMMENT, slice (src s0) (offset s) (offset e))
          else Scan kw s0 = Scan kw e \<and> fst (snd (Scan kw e)) \<noteq> COMMENT"
      using h(2) by (intro Scan_comment_end [OF s_def assms(1) h(1) _ f]) simp
    then show ?thesis
      using k c unfolding Let_def q_def e_def funpow.simps o_apply
      by (intro exI [of _ k]) blast
  qed
  show "let s = skipWhitespace s0; s2 = next_rune (next_rune s) in
       (char s = rune CHR ''/'' \<and> char (next_rune s) = rune CHR ''/'' \<longrightarrow>
          (\<exists>k. (\<forall>i<k. char ((next_rune ^^ i) s2) \<noteq> rune CHR 0x0A
                      \<and> 0 \<le> char ((next_rune ^^ i) s2))
             \<and> (let e = (next_rune ^^ k) s2 in
                  (char e = rune CHR 0x0A \<or> char e < 0)
                  \<and> (if scanComments s0
                     then Scan kw s0 = (e, COMMENT, slice (src s0) (offset s) (offset e))
                     else Scan kw s0 = Scan kw e \<and> fst (snd (Scan kw e)) \<noteq> COMMENT))))
       \<and> (char s = rune CHR ''/'' \<and> char (next_rune s) = rune CHR ''*'' \<longrightarrow>
          (\<exists>k. (\<forall>i<k. 0 \<le> char ((next_rune ^^ i) s2)
                      \<and> \<not> (char ((next_rune ^^ i) s2) = rune CHR ''*''
                           \<and> char ((next_rune ^^ Suc i) s2) = rune CHR ''/''))
             \<and> (let q = (next_rune ^^ k) s2;
                     e = (if char q < 0
                          then error (offset s) (Msg ''comment not terminated'') q
                          else next_rune (next_rune q)) in
                  (char q < 0 \<or> char q = rune CHR ''*'' \<and> char (next_rune q) = rune CHR ''/'')
                  \<and> (if scanComments s0
                     then Scan kw s0 = (e, COMMENT, slice (src s0) (offset s) (offset e))
                     else Scan kw s0 = Scan kw e \<and> fst (snd (Scan kw e)) \<noteq> COMMENT))))"
    unfolding Let_def [where s = "skipWhitespace s0"]
      Let_def [where s = "next_rune (next_rune (skipWhitespace s0))"]
    using line block unfolding s_def s2_def by blast
next
  have "scanComments (ScanN kw n (NewScanner source handler False fl)) = False"
    using steps_frame(2) [OF steps_ScanN] scanComments_NewScanner by simp
  then show "fst (snd (Scan kw (ScanN kw n (NewScanner source handler False fl)))) \<noteq> COMMENT"
    using Scan_kinds by blast
next
  show "snd (Scan kw (NewScanner comment_then_foo handler False fl)) = (IDENT, ''foo'')"
    using assms(2) by (simp add: comment_then_foo_def eval_simps)
next
  show "snd (Scan kw (ScanN kw 1 (NewScanner comment_then_foo handler False fl))) = (EOF, [])"
    using assms(2) by (simp add: comment_then_foo_def eval_simps)
next
  show "ErrorCount (ScanN kw 2 (NewScanner comment_then_foo handler False fl)) = 0"
    using assms(2) by (simp add: numeral_2_eq_2 comment_then_foo_def eval_simps)
next
  show "snd (Scan kw (NewScanner comment_then_foo handler True fl)) = (COMMENT, ''// x'')"
    using assms(2) by (simp add: comment_then_foo_def eval_simps)
next
  show "snd (Scan kw (ScanN kw 1 (NewScanner comment_then_foo handler True fl)))
        = (IDENT, ''foo'')"
    using assms(2) by (simp add: comment_then_foo_def eval_simps)
next
  show "snd (Scan kw (ScanN kw 2 (NewScanner comment_then_foo handler True fl))) = (EOF, [])"
    using assms(2) by (simp add: numeral_2_eq_2 comment_then_foo_def eval_simps)
next
  show "ErrorCount (ScanN kw 3 (NewScanner comment_then_foo handler True fl)) = 0"
    using assms(2) by (simp add: numeral_3_eq_3 comment_then_foo_def eval_simps)
next
  show "snd (Scan kw (NewScanner ''/* x */foo'' handler False fl)) = (IDENT, ''foo'')"
    using assms(2) by (simp add: eval_simps)
next
  show "ErrorCount (fst (Scan kw (NewScanner ''/* x */foo'' handler False fl))) = 0"
    using assms(2) by (simp add: eval_simps)
next
  show "snd (Scan kw (NewScanner ''/* x */foo'' handler True fl)) = (COMMENT, ''/* x */'')"
    using assms(2) by (simp add: eval_simps)
next
  show "snd (Scan kw (NewScanner ''/* x'' handler False fl)) = (EOF, [])"
    using assms(2) by (simp add: eval_simps)
next
  show "printed (fst (Scan kw (NewScanner ''/* x'' handler False fl)))
        = [Msg ''comment not terminated'']"
    using assms(2) by (simp add: eval_simps)
next
  show "ErrorCount (fst (Scan kw (NewScanner ''/* x'' handler False fl))) = 1"
    using assms(2) by (simp add: eval_simps)
qed

theorem comments_suppressed_witness:
  "cursor_ok (NewScanner comment_then_foo True False [])
   \<and> ''foo'' \<notin> set [''if'', ''else'']
   \<and> char (skipWhitespace (NewScanner comment_then_foo True False [])) = rune CHR ''/''
   \<and> char (next_rune (skipWhitespace (NewScanner comment_then_foo True False [])))
       = rune CHR ''/''
   \<and> Scan [''if'', ''else''] (NewScanner comment_then_foo True False [])
       = Scan [''if'', ''else''] ((next_rune ^^ 4) (NewScanner comment_then_foo True False []))
   \<and> snd (Scan [''if'', ''else''] (NewScanner comment_then_foo True False [])) = (IDENT, ''foo'')
   \<and> snd (Scan [''if'', ''else''] (ScanN [''if'', ''else''] 1
        (NewScanner comment_then_foo True False []))) = (EOF, [])
   \<and> snd (Scan [''if'', ''else''] (NewScanner comment_then_foo True True []))
       = (COMMENT, ''// x'')
   \<and> cursor_ok (NewScanner ''/* x */foo'' True False [])
   \<and> char (skipWhitespace (NewScanner ''/* x */foo'' True False [])) = rune CHR ''/''
   \<and> char (next_rune (skipWhitespace (NewScanner ''/* x */foo'' True False [])))
       = rune CHR ''*''
   \<and> Scan [''if'', ''else''] (NewScanner ''/* x */foo'' True False [])
       = Scan [''if'', ''else''] ((next_rune ^^ 7) (NewScanner ''/* x */foo'' True False []))
   \<and> snd (Scan [''if'', ''else''] (NewScanner ''/* x */foo'' True False [])) = (IDENT, ''foo'')"
proof -
  let ?kw = "[''if'', ''else'']"
  let ?a = "NewScanner comment_then_foo True False []"
  let ?b = "NewScanner ''/* x */foo'' True False []"
  have h: "''foo'' \<notin> set ?kw" by simp
  have oka: "cursor_ok ?a" and okb: "cursor_ok ?b" by (rule cursor_ok_NewScanner)+
  note A = comments_suppressed [where ?s0.0 = ?a and kw = ?kw and n = 0 and source = "[]"
      and handler = True and fl = "[]", OF oka h]
  note B = comments_suppressed [where ?s0.0 = ?b and kw = ?kw and n = 0 and source = "[]"
      and handler = True and fl = "[]", OF okb h]
  have wa: "skipWhitespace ?a = ?a" and wb: "skipWhitespace ?b = ?b"
    by (simp_all add: comment_then_foo_def eval_simps)
  have ca: "char ?a = rune CHR ''/''" "char (next_rune ?a) = rune CHR ''/''"
    "scanComments ?a = False"
    "char ((next_rune ^^ 0) (next_rune (next_rune ?a))) = rune CHR '' ''"
    "char ((next_rune ^^ 1) (next_rune (next_rune ?a))) = rune CHR ''x''"
    "char ((next_rune ^^ 2) (next_rune (next_rune ?a))) = rune CHR 0x0A"
    by (simp_all add: comment_then_foo_def eval_simps numeral_2_eq_2)
  have cb: "char ?b = rune CHR ''/''" "char (next_rune ?b) = rune CHR ''*''"
    "scanComments ?b = False"
    "char ((next_rune ^^ 0) (next_rune (next_rune ?b))) = rune CHR '' ''"
    "char ((next_rune ^^ 1) (next_rune (next_rune ?b))) = rune CHR ''x''"
    "char ((next_rune ^^ 2) (next_rune (next_rune ?b))) = rune CHR '' ''"
    "char ((next_rune ^^ 3) (next_rune (next_rune ?b))) = rune CHR ''*''"
    "char ((next_rune ^^ 4) (next_rune (next_rune ?b))) = rune CHR ''/''"
    by (simp_all add: eval_simps numeral_2_eq_2 numeral_3_eq_3 eval_nat_numeral)
  obtain k where k: "\<forall>i<k. char ((next_rune ^^ i) (next_rune (next_rune ?a))) \<noteq> rune CHR 0x0A
        \<and> 0 \<le> char ((next_rune ^^ i) (next_rune (next_rune ?a)))"
    and e: "char ((next_rune ^^ k) (next_rune (next_rune ?a))) = rune CHR 0x0A
        \<or> char ((next_rune ^^ k) (next_rune (next_rune ?a))) < 0"
    and S: "Scan ?kw ?a = Scan ?kw ((next_rune ^^ k) (next_rune (next_rune ?a)))"
    using A [THEN conjunct1, unfolded Let_def wa, THEN conjunct1, THEN mp, OF conjI,
        OF ca(1) ca(2)] ca(3)
    by auto
  have "\<not> 2 < k" using k [rule_format, of 2] ca(6) by auto
  then have "k = 0 \<or> k = 1 \<or> k = 2" by arith
  then have k2: "k = 2" using e ca(4,5) by auto
  have Sa: "Scan ?kw ?a = Scan ?kw ((next_rune ^^ 4) ?a)"
    using S unfolding k2 by (simp add: eval_nat_numeral funpow_swap1)
  obtain j where j: "\<forall>i<j. 0 \<le> char ((next_rune ^^ i) (next_rune (next_rune ?b)))
        \<and> \<not> (char ((next_rune ^^ i) (next_rune (next_rune ?b))) = rune CHR ''*''
             \<and> char ((next_rune ^^ Suc i) (next_rune (next_rune ?b))) = rune CHR ''/'')"
    and q: "char ((next_rune ^^ j) (next_rune (next_rune ?b))) < 0
        \<or> char ((next_rune ^^ j) (next_rune (next_rune ?b))) = rune CHR ''*''
          \<and> char (next_rune ((next_rune ^^ j) (next_rune (next_rune ?b)))) = rune CHR ''/''"
    and T: "Scan ?kw ?b = Scan ?kw
        (if char ((next_rune ^^ j) (next_rune (next_rune ?b))) < 0
         then error (offset ?b) (Msg ''comment not terminated'')
                ((next_rune ^^ j) (next_rune (next_rune ?b)))
         else next_rune (next_rune ((next_rune ^^ j) (next_rune (next_rune ?b)))))"
    using B [THEN conjunct1, unfolded Let_def wb, THEN conjunct2, THEN mp, OF conjI,
        OF cb(1) cb(2)] cb(3)
    by auto
  have "\<not> 3 < j" using j [rule_format, of 3] cb(7,8) by (auto simp: eval_nat_numeral)
  then have "j = 0 \<or> j = 1 \<or> j = 2 \<or> j = 3" by arith
  then have j3: "j = 3" using q cb(4,5,6) by auto
  have Sb: "Scan ?kw ?b = Scan ?kw ((next_rune ^^ 7) ?b)"
    using T cb(7) unfolding j3 by (simp add: eval_nat_numeral funpow_swap1)
  note C = A [THEN conjunct2]
  note D = B [THEN conjunct2]
  show ?thesis
    using oka okb h ca(1,2) cb(1,2) Sa Sb C D unfolding wa wb by simp
qed

end
